theory Spec2Isabelle
  imports Complex_Main
begin

section \<open>Conventions of the embedding\<close>

text \<open>
  The economics modules are pure functions over Python numbers. The formulas of
  MarketStructures and PriceCompetition are computed in double precision, modelled by the
  type \<open>pyfloat\<close> with IEEE 754 rounding, infinities and NaN; the auctions are polymorphic
  in the element type of their numpy array. The payoffs of GameTheory, which are only
  compared, and the adoption simulation of NetworkEffects are embedded over the reals.
  Every raise of the source is a value of \<open>py_error\<close>: indexing a list out of range,
  dividing by zero, a float power that overflows, and \<open>np.argmax\<close> of an empty array. A
  function that can raise returns \<open>py_error + 'a\<close>, with \<open>Inl\<close> for the exception.
\<close>

datatype py_error = IndexError | ZeroDivisionError | ValueError | OverflowError

definition bind_err :: "py_error + 'a \<Rightarrow> ('a \<Rightarrow> py_error + 'b) \<Rightarrow> py_error + 'b" where
  "bind_err m f = (case m of Inl e \<Rightarrow> Inl e | Inr x \<Rightarrow> f x)"

definition nth_py :: "'a list \<Rightarrow> nat \<Rightarrow> py_error + 'a" where
  \<comment> \<open>\<open>xs[i]\<close> for an index that is not negative\<close>
  "nth_py xs i = (if i < length xs then Inr (xs ! i) else Inl IndexError)"

definition py_div :: "real \<Rightarrow> real \<Rightarrow> py_error + real" where
  \<comment> \<open>\<open>x / y\<close> on Python numbers\<close>
  "py_div x y = (if y = 0 then Inl ZeroDivisionError else Inr (x / y))"

section \<open>GameTheory (src/modules/game\_theory.py)\<close>

type_synonym payoff_matrix = "real list list"

definition cell :: "payoff_matrix \<Rightarrow> nat \<Rightarrow> nat \<Rightarrow> py_error + real" where
  \<comment> \<open>\<open>payoff_matrix[i][j]\<close>\<close>
  "cell m i j = bind_err (nth_py m i) (\<lambda>row. nth_py row j)"

subsection \<open>find\_nash\_equilibria\<close>

text \<open>
  The loop \<open>for k in range(n_strategies_p1)\<close> that looks for a profitable deviation of
  player 1 in column \<open>j\<close>; it stops at the first one (\<open>break\<close>). The value is whether a
  deviation was found.
\<close>

fun p1_deviates :: "payoff_matrix \<Rightarrow> nat \<Rightarrow> real \<Rightarrow> nat list \<Rightarrow> py_error + bool" where
  "p1_deviates m j cur [] = Inr False"
| "p1_deviates m j cur (k # ks) =
     bind_err (cell m k j) (\<lambda>v. if v > cur then Inr True else p1_deviates m j cur ks)"

text \<open>The loop \<open>for l in range(n_strategies_p2)\<close> for player 2 in row \<open>i\<close>.\<close>

fun p2_deviates :: "payoff_matrix \<Rightarrow> nat \<Rightarrow> real \<Rightarrow> nat list \<Rightarrow> py_error + bool" where
  "p2_deviates m i cur [] = Inr False"
| "p2_deviates m i cur (l # ls) =
     bind_err (cell m i l) (\<lambda>v. if v > cur then Inr True else p2_deviates m i cur ls)"

definition is_nash :: "payoff_matrix \<Rightarrow> payoff_matrix \<Rightarrow> nat \<Rightarrow> nat \<Rightarrow> nat \<Rightarrow> nat \<Rightarrow> py_error + bool" where
  \<comment> \<open>the body of the double loop for the cell \<open>(i, j)\<close>: the final value of \<open>is_nash\<close>\<close>
  "is_nash m1 m2 n1 n2 i j =
     bind_err (cell m1 i j) (\<lambda>current_payoff_p1.
     bind_err (p1_deviates m1 j current_payoff_p1 [0..<n1]) (\<lambda>d1.
       if d1 then Inr False
       else bind_err (cell m2 i j) (\<lambda>current_payoff_p2.
            bind_err (p2_deviates m2 i current_payoff_p2 [0..<n2]) (\<lambda>d2. Inr (\<not> d2)))))"

text \<open>
  The double loop over \<open>i\<close> and \<open>j\<close>, as one loop over the cells in the order the source
  visits them, appending to \<open>equilibria\<close>.
\<close>

fun nash_loop ::
  "payoff_matrix \<Rightarrow> payoff_matrix \<Rightarrow> string list \<Rightarrow> string list \<Rightarrow> (nat \<times> nat) list \<Rightarrow>
   (string \<times> string) list \<Rightarrow> py_error + (string \<times> string) list" where
  "nash_loop m1 m2 s1 s2 [] equilibria = Inr equilibria"
| "nash_loop m1 m2 s1 s2 ((i, j) # cells) equilibria =
     bind_err (is_nash m1 m2 (length s1) (length s2) i j) (\<lambda>b.
       nash_loop m1 m2 s1 s2 cells (if b then equilibria @ [(s1 ! i, s2 ! j)] else equilibria))"

definition find_nash_equilibria ::
  "payoff_matrix \<Rightarrow> payoff_matrix \<Rightarrow> string list \<Rightarrow> string list \<Rightarrow>
   py_error + (string \<times> string) list" where
  "find_nash_equilibria payoff_matrix_p1 payoff_matrix_p2 strategies_p1 strategies_p2 =
     nash_loop payoff_matrix_p1 payoff_matrix_p2 strategies_p1 strategies_p2
       (List.product [0..<length strategies_p1] [0..<length strategies_p2]) []"

subsection \<open>find\_dominant\_strategy\<close>

text \<open>Python's \<open>all\<close> over a generator: it stops at the first false element.\<close>

fun all_gen :: "(nat \<Rightarrow> py_error + bool) \<Rightarrow> nat list \<Rightarrow> py_error + bool" where
  "all_gen f [] = Inr True"
| "all_gen f (j # js) = bind_err (f j) (\<lambda>b. if b then all_gen f js else Inr False)"

definition gt_cells :: "payoff_matrix \<Rightarrow> nat \<Rightarrow> nat \<Rightarrow> nat \<Rightarrow> nat \<Rightarrow> py_error + bool" where
  \<comment> \<open>\<open>payoff_matrix[i][j] > payoff_matrix[k][l]\<close>\<close>
  "gt_cells m i j k l = bind_err (cell m i j) (\<lambda>x. bind_err (cell m k l) (\<lambda>y. Inr (x > y)))"

definition find_dominant_strategy :: "payoff_matrix \<Rightarrow> string \<Rightarrow> py_error + string" where
  "find_dominant_strategy m player =
     (if player = ''row'' then
        bind_err (nth_py m 0) (\<lambda>row0.
        bind_err (all_gen (\<lambda>j. gt_cells m 0 j 1 j) [0..<length row0]) (\<lambda>b1.
          if b1 then Inr ''Strategy 1 dominates''
          else bind_err (all_gen (\<lambda>j. gt_cells m 1 j 0 j) [0..<length row0]) (\<lambda>b2.
            if b2 then Inr ''Strategy 2 dominates'' else Inr ''No dominant strategy'')))
      else
        bind_err (all_gen (\<lambda>i. gt_cells m i 0 i 1) [0..<length m]) (\<lambda>b1.
          if b1 then Inr ''Strategy 1 dominates''
          else bind_err (all_gen (\<lambda>i. gt_cells m i 1 i 0) [0..<length m]) (\<lambda>b2.
            if b2 then Inr ''Strategy 2 dominates'' else Inr ''No dominant strategy'')))"

subsection \<open>prisoners\_dilemma\<close>

record pd_result =
  pd_payoff_matrix :: payoff_matrix
  pd_strategies :: "string list"
  equilibrium :: "(string \<times> string) list"
  player1_dominant :: string
  player2_dominant :: string
  game_type :: string

definition prisoners_dilemma :: "payoff_matrix \<Rightarrow> py_error + pd_result" where
  "prisoners_dilemma payoff_matrix =
     (let strategies = [''Cooperate'', ''Defect''] in
      bind_err (find_nash_equilibria payoff_matrix payoff_matrix strategies strategies) (\<lambda>equilibria.
      bind_err (find_dominant_strategy payoff_matrix ''row'') (\<lambda>p1d.
      bind_err (find_dominant_strategy payoff_matrix ''column'') (\<lambda>p2d.
        Inr \<lparr>pd_payoff_matrix = payoff_matrix, pd_strategies = strategies,
             equilibrium = equilibria, player1_dominant = p1d, player2_dominant = p2d,
             game_type = ''Prisoners Dilemma''\<rparr>))))"

subsection \<open>repeated\_game\_simulation\<close>

record game_state =
  action_p1 :: nat
  action_p2 :: nat
  history_p1 :: "nat list"
  history_p2 :: "nat list"
  payoffs_p1 :: "real list"
  payoffs_p2 :: "real list"

definition next_actions :: "string \<Rightarrow> string \<Rightarrow> game_state \<Rightarrow> game_state" where
  \<comment> \<open>the two \<open>if\<close>/\<open>elif\<close> chains run one after the other: the second reads the
      \<open>action_p1\<close> that the first has just assigned\<close>
  "next_actions strategy_p1 strategy_p2 s =
     (let s1 = (if strategy_p1 = ''tit_for_tat'' then s\<lparr>action_p1 := action_p2 s\<rparr>
                else if strategy_p1 = ''always_cooperate'' then s\<lparr>action_p1 := 0\<rparr>
                else s\<lparr>action_p1 := 1\<rparr>)
      in (if strategy_p2 = ''tit_for_tat'' then s1\<lparr>action_p2 := action_p1 s1\<rparr>
          else if strategy_p2 = ''always_cooperate'' then s1\<lparr>action_p2 := 0\<rparr>
          else s1\<lparr>action_p2 := 1\<rparr>))"

text \<open>
  The loop \<open>for round_num in range(n_rounds)\<close>, over the rounds that remain: the next
  actions are determined in every round but the last.
\<close>

fun rounds_loop ::
  "payoff_matrix \<Rightarrow> string \<Rightarrow> string \<Rightarrow> nat \<Rightarrow> game_state \<Rightarrow> py_error + game_state" where
  "rounds_loop m strategy_p1 strategy_p2 0 s = Inr s"
| "rounds_loop m strategy_p1 strategy_p2 (Suc remaining) s =
     (let s1 = s\<lparr>history_p1 := history_p1 s @ [action_p1 s],
                 history_p2 := history_p2 s @ [action_p2 s]\<rparr> in
      bind_err (cell m (action_p1 s1) (action_p2 s1)) (\<lambda>payoff_p1.
      bind_err (cell m (action_p2 s1) (action_p1 s1)) (\<lambda>payoff_p2.
        let s2 = s1\<lparr>payoffs_p1 := payoffs_p1 s1 @ [payoff_p1],
                    payoffs_p2 := payoffs_p2 s1 @ [payoff_p2]\<rparr> in
        rounds_loop m strategy_p1 strategy_p2 remaining
          (if 0 < remaining then next_actions strategy_p1 strategy_p2 s2 else s2))))"

record repeated_result =
  res_history_p1 :: "nat list"
  res_history_p2 :: "nat list"
  res_payoffs_p1 :: "real list"
  res_payoffs_p2 :: "real list"
  total_payoff_p1 :: real
  total_payoff_p2 :: real
  cooperation_rate_p1 :: real
  cooperation_rate_p2 :: real

text \<open>
  The parameter \<open>strategies\<close> is not read by the source. The cooperation rates divide by
  the length of the history, which is zero for \<open>n_rounds = 0\<close>.
\<close>

definition repeated_game_simulation ::
  "payoff_matrix \<Rightarrow> string list \<Rightarrow> nat \<Rightarrow> string \<Rightarrow> string \<Rightarrow> py_error + repeated_result" where
  "repeated_game_simulation payoff_matrix strategies n_rounds strategy_p1 strategy_p2 =
     (let init = \<lparr>action_p1 = (if strategy_p1 = ''tit_for_tat'' then 0 else 1),
                  action_p2 = (if strategy_p2 = ''always_cooperate'' then 0 else 1),
                  history_p1 = [], history_p2 = [], payoffs_p1 = [], payoffs_p2 = []\<rparr> in
      bind_err (rounds_loop payoff_matrix strategy_p1 strategy_p2 n_rounds init) (\<lambda>s.
      bind_err (py_div (real (count_list (history_p1 s) 0)) (real (length (history_p1 s)))) (\<lambda>r1.
      bind_err (py_div (real (count_list (history_p2 s) 0)) (real (length (history_p2 s)))) (\<lambda>r2.
        Inr \<lparr>res_history_p1 = history_p1 s, res_history_p2 = history_p2 s,
             res_payoffs_p1 = payoffs_p1 s, res_payoffs_p2 = payoffs_p2 s,
             total_payoff_p1 = sum_list (payoffs_p1 s), total_payoff_p2 = sum_list (payoffs_p2 s),
             cooperation_rate_p1 = r1, cooperation_rate_p2 = r2\<rparr>))))"

section \<open>Machine arithmetic\<close>

text \<open>
  The arithmetic of the number types the modules compute with is not part of the
  repository; it is modelled here from IEEE 754 and from numpy's int64. A finite double is
  the real number it denotes. \<open>round64\<close> rounds a real to the nearest value with a
  53-bit significand and an exponent of at least \<open>-1022\<close> (subnormal numbers included),
  ties to even; \<open>binary64\<close> adds the overflow to an infinity. The sign of a zero is not
  modelled.
\<close>

datatype pyfloat = Fin real | PInf | NInf | NaN

definition round_half_even :: "real \<Rightarrow> int" where
  "round_half_even x =
     (let f = \<lfloor>x\<rfloor>; d = x - of_int f
      in if d < 1 / 2 then f else if d > 1 / 2 then f + 1 else if even f then f else f + 1)"

definition ulp_of :: "real \<Rightarrow> real" where
  \<comment> \<open>the weight of the last significand bit at the magnitude of \<open>x\<close>\<close>
  "ulp_of x = 2 powr of_int (max \<lfloor>log 2 \<bar>x\<bar>\<rfloor> (- 1022) - 52)"

definition round64 :: "real \<Rightarrow> real" where
  "round64 x = (if x = 0 then 0 else of_int (round_half_even (x / ulp_of x)) * ulp_of x)"

definition binary64 :: "real \<Rightarrow> pyfloat" where
  "binary64 x =
     (let r = round64 x
      in if r \<ge> 2 ^ 1024 then PInf else if r \<le> - (2 ^ 1024) then NInf else Fin r)"

text \<open>
  The operations of a Python float. Overflow of \<open>+\<close>, \<open>-\<close>, \<open>*\<close> and \<open>/\<close> gives an
  infinity; \<open>/\<close> raises ZeroDivisionError on a zero divisor, whatever the dividend;
  \<open>x ** 2\<close> raises OverflowError when the square of a finite \<open>x\<close> overflows, and is
  taken to be the correctly rounded square otherwise.
\<close>

fun fneg :: "pyfloat \<Rightarrow> pyfloat" where
  "fneg (Fin x) = Fin (- x)"
| "fneg PInf = NInf"
| "fneg NInf = PInf"
| "fneg NaN = NaN"

fun fadd :: "pyfloat \<Rightarrow> pyfloat \<Rightarrow> pyfloat" where
  "fadd (Fin x) (Fin y) = binary64 (x + y)"
| "fadd NaN b = NaN"
| "fadd a NaN = NaN"
| "fadd PInf NInf = NaN"
| "fadd NInf PInf = NaN"
| "fadd PInf b = PInf"
| "fadd a PInf = PInf"
| "fadd NInf b = NInf"
| "fadd a NInf = NInf"

definition fsub :: "pyfloat \<Rightarrow> pyfloat \<Rightarrow> pyfloat" where
  "fsub a b = fadd a (fneg b)"

fun fsgn :: "pyfloat \<Rightarrow> int" where
  "fsgn (Fin x) = (if x > 0 then 1 else if x < 0 then - 1 else 0)"
| "fsgn PInf = 1"
| "fsgn NInf = - 1"
| "fsgn NaN = 0"

definition finf :: "int \<Rightarrow> pyfloat" where
  \<comment> \<open>the infinity of a sign; no sign (zero times infinity) gives NaN\<close>
  "finf s = (if s > 0 then PInf else if s < 0 then NInf else NaN)"

fun fmul :: "pyfloat \<Rightarrow> pyfloat \<Rightarrow> pyfloat" where
  "fmul (Fin x) (Fin y) = binary64 (x * y)"
| "fmul NaN b = NaN"
| "fmul a NaN = NaN"
| "fmul a b = finf (fsgn a * fsgn b)"

fun fdiv :: "pyfloat \<Rightarrow> pyfloat \<Rightarrow> py_error + pyfloat" where
  "fdiv a (Fin y) =
     (if y = 0 then Inl ZeroDivisionError
      else case a of Fin x \<Rightarrow> Inr (binary64 (x / y)) | NaN \<Rightarrow> Inr NaN
           | _ \<Rightarrow> Inr (finf (fsgn a * fsgn (Fin y))))"
| "fdiv NaN b = Inr NaN"
| "fdiv a NaN = Inr NaN"
| "fdiv (Fin x) b = Inr (Fin 0)"
| "fdiv a b = Inr NaN"

fun fpow2 :: "pyfloat \<Rightarrow> py_error + pyfloat" where
  "fpow2 (Fin x) = (case binary64 (x * x) of PInf \<Rightarrow> Inl OverflowError | r \<Rightarrow> Inr r)"
| "fpow2 NaN = Inr NaN"
| "fpow2 a = Inr PInf"



text \<open>
  The element arithmetic of a float64 array on finite values whose result is finite, and
  the subtraction of an int64 array, which wraps modulo \<open>2^64\<close>.
\<close>

definition float64_add :: "real \<Rightarrow> real \<Rightarrow> real" where
  "float64_add x y = round64 (x + y)"

definition float64_sub :: "real \<Rightarrow> real \<Rightarrow> real" where
  "float64_sub x y = round64 (x - y)"


section \<open>MarketStructures (src/modules/market\_structures.py)\<close>

text \<open>The arguments are Python floats. The integer literals 2 and 0 convert exactly.\<close>

record market_result =
  price :: pyfloat
  quantity :: pyfloat
  consumer_surplus :: pyfloat
  producer_surplus :: pyfloat
  total_surplus :: pyfloat
  deadweight_loss :: "pyfloat option"
  market_type :: string

definition perfect_competition :: "pyfloat \<Rightarrow> pyfloat \<Rightarrow> pyfloat \<Rightarrow> py_error + market_result" where
  "perfect_competition a b mc =
     bind_err (fdiv (fsub a mc) b) (\<lambda>q_eq.
       let p_eq = mc;
           cs = fmul (fmul (Fin 0.5) q_eq) (fsub a p_eq);
           ps = Fin 0
       in Inr \<lparr>price = p_eq, quantity = q_eq, consumer_surplus = cs, producer_surplus = ps,
               total_surplus = fadd cs ps, deadweight_loss = None,
               market_type = ''Perfect Competition''\<rparr>)"

definition monopoly :: "pyfloat \<Rightarrow> pyfloat \<Rightarrow> pyfloat \<Rightarrow> py_error + market_result" where
  "monopoly a b mc =
     bind_err (fdiv (fsub a mc) (fmul (Fin 2) b)) (\<lambda>q_eq.
       let p_eq = fsub a (fmul b q_eq);
           cs = fmul (fmul (Fin 0.5) q_eq) (fsub a p_eq);
           ps = fmul (fsub p_eq mc) q_eq
       in bind_err (fdiv (fsub a mc) b) (\<lambda>q_competitive.
          bind_err (fpow2 (fsub q_competitive q_eq)) (\<lambda>sq.
            let dwl = fmul (fmul (Fin 0.5) b) sq
            in Inr \<lparr>price = p_eq, quantity = q_eq, consumer_surplus = cs, producer_surplus = ps,
                    total_surplus = fadd cs ps, deadweight_loss = Some dwl,
                    market_type = ''Monopoly''\<rparr>)))"

section \<open>PriceCompetition (src/modules/price\_competition.py)\<close>

record bertrand_result =
  price1 :: pyfloat
  price2 :: pyfloat
  quantity1 :: pyfloat
  quantity2 :: pyfloat
  profit1 :: pyfloat
  profit2 :: pyfloat
  total_quantity :: pyfloat
  bertrand_consumer_surplus :: pyfloat
  differentiation :: pyfloat
  competition_type :: string

definition bertrand_competition ::
  "pyfloat \<Rightarrow> pyfloat \<Rightarrow> pyfloat \<Rightarrow> pyfloat \<Rightarrow> pyfloat \<Rightarrow> py_error + bertrand_result" where
  "bertrand_competition mc1 mc2 a b gamma =
     bind_err (fpow2 gamma) (\<lambda>g2.
       let denominator = fsub (Fin 4) g2 in
       bind_err (fdiv (fadd (fadd (fmul (Fin 2) a) (fmul (fmul (Fin 2) b) mc1))
                            (fmul (fmul gamma b) mc2))
                      (fmul b denominator)) (\<lambda>p1.
       bind_err (fdiv (fadd (fadd (fmul (Fin 2) a) (fmul (fmul (Fin 2) b) mc2))
                            (fmul (fmul gamma b) mc1))
                      (fmul b denominator)) (\<lambda>p2.
         let q1 = fadd (fsub a (fmul b p1)) (fmul (fmul gamma b) p2);
             q2 = fadd (fsub a (fmul b p2)) (fmul (fmul gamma b) p1);
             pr1 = fmul (fsub p1 mc1) q1;
             pr2 = fmul (fsub p2 mc2) q2
         in bind_err (fpow2 q1) (\<lambda>s1.
            bind_err (fpow2 q2) (\<lambda>s2.
              let cs = fadd (fmul (fmul (Fin 0.5) b) (fadd s1 s2))
                            (fmul (fmul (fmul gamma b) q1) q2)
              in Inr \<lparr>price1 = p1, price2 = p2, quantity1 = q1, quantity2 = q2,
                      profit1 = pr1, profit2 = pr2, total_quantity = fadd q1 q2,
                      bertrand_consumer_surplus = cs, differentiation = gamma,
                      competition_type = ''Bertrand''\<rparr>)))))"

section \<open>NetworkEffects (src/modules/network\_effects.py)\<close>






section \<open>AuctionTheory (src/modules/auction\_theory.py)\<close>

text \<open>
  The auctions compute on a numpy array, whose element type is int64 for integer input
  and float64 for float input. The model is polymorphic in the element type \<open>'a\<close>, a
  linear order: comparisons are exact on both types (NaN, which is not ordered, is left
  out), and the reserve price and the increment are numbers of that type. The arithmetic
  is a parameter of each function, because it depends on the type: \<open>sub\<close> is the \<open>-\<close> of
  an array element and a price, \<open>arr_add\<close> the \<open>+\<close> of an array element and the
  increment (both wrap on int64 and round on float64), and \<open>add\<close> the \<open>+\<close> of the two
  Python numbers \<open>current_price\<close> and \<open>increment\<close> (exact on integers, rounded on
  floats).

  The numpy operations the auctions use: \<open>np.where(c)[0]\<close> is the increasing list of the
  indices at which \<open>c\<close> holds; \<open>np.argmax\<close> is the index of the first occurrence of the
  maximum and raises ValueError on an empty array; \<open>np.partition(xs, -2)[-2]\<close> and
  \<open>np.sort(xs)[-2]\<close> are the element at position \<open>len(xs) - 2\<close> of the sorted array.
\<close>

definition np_where :: "('a \<Rightarrow> bool) \<Rightarrow> 'a list \<Rightarrow> nat list" where
  "np_where c xs = filter (\<lambda>i. c (xs ! i)) [0..<length xs]"

fun argmax_from :: "'a::linorder list \<Rightarrow> nat \<Rightarrow> nat \<Rightarrow> 'a \<Rightarrow> nat" where
  "argmax_from [] i best_i best = best_i"
| "argmax_from (x # xs) i best_i best =
     (if x > best then argmax_from xs (Suc i) i x else argmax_from xs (Suc i) best_i best)"

definition argmax :: "'a::linorder list \<Rightarrow> py_error + nat" where
  "argmax xs = (case xs of [] \<Rightarrow> Inl ValueError | x # rest \<Rightarrow> Inr (argmax_from rest 1 0 x))"

definition second_highest :: "'a::linorder list \<Rightarrow> 'a" where
  \<comment> \<open>used on lists of two or more elements only\<close>
  "second_highest xs = sort xs ! (length xs - 2)"

record 'a auction_result =
  winner :: "nat option"
  winning_bid :: 'a
  payment :: "'a option"
  revenue :: 'a
  winner_surplus :: 'a
  efficiency :: real
  final_price :: "'a option"
  bids :: "'a list option"
  valuations_out :: "'a list option"
  auction_type :: string

definition no_winner :: "'a::zero option \<Rightarrow> 'a list option \<Rightarrow> string \<Rightarrow> 'a auction_result" where
  \<comment> \<open>the dictionary returned when no bidder is left\<close>
  "no_winner fp bs name =
     \<lparr>winner = None, winning_bid = 0, payment = None, revenue = 0, winner_surplus = 0,
      efficiency = 0, final_price = fp, bids = bs, valuations_out = None, auction_type = name\<rparr>"

definition second_price_sealed_bid ::
  "('a \<Rightarrow> 'a \<Rightarrow> 'a) \<Rightarrow> 'a::{linorder,zero} list \<Rightarrow> 'a \<Rightarrow> py_error + 'a auction_result" where
  "second_price_sealed_bid sub valuations reserve_price =
     (let bids = valuations;
          feasible_bidders = np_where (\<lambda>b. b \<ge> reserve_price) bids
      in if length feasible_bidders = 0
         then Inr (no_winner None (Some bids) ''Second-Price Sealed-Bid'')
         else
           let feasible_bids = map (\<lambda>i. bids ! i) feasible_bidders in
           bind_err (argmax feasible_bids) (\<lambda>k.
             let winner_idx = feasible_bidders ! k;
                 payment0 = (if length feasible_bids > 1 then second_highest feasible_bids
                             else reserve_price);
                 payment1 = max payment0 reserve_price;
                 surplus = sub (valuations ! winner_idx) payment1
             in Inr \<lparr>winner = Some winner_idx, winning_bid = valuations ! winner_idx,
                     payment = Some payment1, revenue = payment1, winner_surplus = surplus,
                     efficiency = 1, final_price = None, bids = Some bids,
                     valuations_out = Some valuations,
                     auction_type = ''Second-Price Sealed-Bid''\<rparr>))"

text \<open>
  The loop \<open>while len(active_bidders) > 1\<close> of \<open>english_auction\<close>. Nothing in the source
  bounds the number of rounds, so the loop is a partial function: \<open>None\<close> is a run that
  never ends. The state is the list of active bidders and the current price.
\<close>

partial_function (option) english_loop ::
  "('a \<Rightarrow> 'a \<Rightarrow> 'a) \<Rightarrow> 'a::linorder list \<Rightarrow> 'a \<Rightarrow> nat list \<Rightarrow> 'a \<Rightarrow> (nat list \<times> 'a) option" where
  "english_loop add valuations increment active_bidders current_price =
     (if length active_bidders > 1
      then english_loop add valuations increment
             (filter (\<lambda>i. valuations ! i \<ge> add current_price increment) active_bidders)
             (add current_price increment)
      else Some (active_bidders, current_price))"

definition english_auction ::
  "('a \<Rightarrow> 'a \<Rightarrow> 'a) \<Rightarrow> ('a \<Rightarrow> 'a \<Rightarrow> 'a) \<Rightarrow> ('a \<Rightarrow> 'a \<Rightarrow> 'a) \<Rightarrow>
   'a::{linorder,zero} list \<Rightarrow> 'a \<Rightarrow> 'a \<Rightarrow> 'a auction_result option" where
  "english_auction add arr_add sub valuations reserve_price increment =
     (let active_bidders = np_where (\<lambda>v. v \<ge> reserve_price) valuations
      in if length active_bidders = 0
         then Some (no_winner (Some reserve_price) None ''English Auction'')
         else
           Option.bind (english_loop add valuations increment active_bidders reserve_price)
             (\<lambda>(active_bidders, current_price).
                if length active_bidders = 0
                then Some (no_winner (Some current_price) None ''English Auction'')
                else
                  let winner_idx = active_bidders ! 0;
                      sorted_valuations = sort (filter (\<lambda>v. v \<ge> reserve_price) valuations);
                      payment0 = (if length sorted_valuations > 1
                                  then arr_add
                                         (sorted_valuations ! (length sorted_valuations - 2))
                                         increment
                                  else reserve_price);
                      surplus = sub (valuations ! winner_idx) payment0
                  in Some \<lparr>winner = Some winner_idx, winning_bid = valuations ! winner_idx,
                           payment = Some payment0, revenue = payment0, winner_surplus = surplus,
                           efficiency = 1, final_price = Some payment0, bids = None,
                           valuations_out = Some valuations,
                           auction_type = ''English Auction''\<rparr>))"

section \<open>Properties\<close>

lemma bind_err_simps [simp]:
  "bind_err (Inl e) f = Inl e"
  "bind_err (Inr x) f = f x"
  by (simp_all add: bind_err_def)

lemma upt_2: "[0..<2] = [0, Suc 0]"
  by (simp add: upt_conv_Cons)

text \<open>
  C1. On the standard Prisoner's Dilemma matrix \<open>[[3,0],[5,1]]\<close>, \<open>prisoners_dilemma\<close>
  returns exactly one equilibrium, and it is (Defect, Cooperate): the same matrix is
  handed over as both players' payoffs, so player 2 is tested on the rows of player 1's
  matrix instead of on its transpose.
\<close>

theorem prisoners_dilemma_standard_matrix:
  "map_sum id equilibrium (prisoners_dilemma [[3, 0], [5, 1]]) = Inr [(''Defect'', ''Cooperate'')]"
  by (simp add: prisoners_dilemma_def find_nash_equilibria_def find_dominant_strategy_def
      is_nash_def cell_def nth_py_def gt_cells_def upt_2)

text \<open>
  C3. The actions of \<open>repeated_game_simulation\<close> do not follow the named strategies.
  Player 1 starts with Defect (1) unless it plays tit-for-tat, so an \<open>always_cooperate\<close>
  player 1 defects in the first round; player 2 starts with Defect unless it plays
  \<open>always_cooperate\<close>, so a tit-for-tat player 2 defects in the first round, and in later
  rounds it copies the action player 1 has just chosen for the coming round, not the one
  player 1 played in the previous round.
\<close>

theorem repeated_game_strategies_not_followed:
  "map_sum id res_history_p1
     (repeated_game_simulation [[3, 0], [5, 1]] [''Cooperate'', ''Defect''] 2
        ''always_cooperate'' ''always_defect'') = Inr [1, 0]
   \<and> map_sum id (\<lambda>r. (res_history_p1 r, res_history_p2 r))
     (repeated_game_simulation [[3, 0], [5, 1]] [''Cooperate'', ''Defect''] 2
        ''always_cooperate'' ''tit_for_tat'')
       = Inr ([1, 0], [1, 0])"
  by (simp add: repeated_game_simulation_def next_actions_def cell_def nth_py_def py_div_def
      numeral_2_eq_2 Let_def)

subsection \<open>Machine arithmetic\<close>

lemma round_half_even_of_int [simp]: "round_half_even (of_int n) = n"
  by (simp add: round_half_even_def)

lemma round_half_even_le: "x \<le> of_int n \<Longrightarrow> round_half_even x \<le> n"
proof -
  assume a: "x \<le> of_int n"
  have f: "\<lfloor>x\<rfloor> \<le> n" using a by (simp add: floor_le_iff)
  show ?thesis
  proof (cases "\<lfloor>x\<rfloor> = n")
    case True
    then have "x = of_int n" using a by linarith
    then show ?thesis by simp
  next
    case False
    then have "\<lfloor>x\<rfloor> + 1 \<le> n" using f by simp
    then show ?thesis unfolding round_half_even_def Let_def using f by auto
  qed
qed

lemma round_half_even_ge: "of_int n \<le> x \<Longrightarrow> n \<le> round_half_even x"
proof -
  assume "of_int n \<le> x"
  then have "n \<le> \<lfloor>x\<rfloor>" by (simp add: le_floor_iff)
  then show ?thesis unfolding round_half_even_def Let_def by auto
qed

lemma round_half_even_pos: "1 / 2 < x \<Longrightarrow> 1 \<le> round_half_even x"
proof -
  assume a: "1 / 2 < x"
  show ?thesis
  proof (cases "1 \<le> x")
    case True
    then show ?thesis using round_half_even_ge [of 1 x] by simp
  next
    case False
    then have "\<lfloor>x\<rfloor> = 0" using a by (simp add: floor_eq_iff)
    then show ?thesis using a unfolding round_half_even_def Let_def by simp
  qed
qed

lemma ulp_of_pos: "0 < ulp_of x"
  by (simp add: ulp_of_def)

lemma round64_nonneg: "0 \<le> x \<Longrightarrow> 0 \<le> round64 x"
proof -
  assume "0 \<le> x"
  then have "of_int 0 \<le> x / ulp_of x" using ulp_of_pos [of x] by simp
  then have "0 \<le> round_half_even (x / ulp_of x)" by (rule round_half_even_ge)
  then show ?thesis using ulp_of_pos [of x] by (simp add: round64_def)
qed



lemma floor_log2_bounds:
  assumes "x \<noteq> 0"
  shows "2 powr of_int \<lfloor>log 2 \<bar>x\<bar>\<rfloor> \<le> \<bar>x\<bar>" and "\<bar>x\<bar> < 2 powr of_int (\<lfloor>log 2 \<bar>x\<bar>\<rfloor> + 1)"
proof -
  have "0 < \<bar>x\<bar>" using assms by simp
  then have "2 powr of_int \<lfloor>log 2 \<bar>x\<bar>\<rfloor> \<le> \<bar>x\<bar> \<and> \<bar>x\<bar> < 2 powr of_int (\<lfloor>log 2 \<bar>x\<bar>\<rfloor> + 1)"
    using floor_log_eq_powr_iff [of "\<bar>x\<bar>" 2 "\<lfloor>log 2 \<bar>x\<bar>\<rfloor>"] by simp
  then show "2 powr of_int \<lfloor>log 2 \<bar>x\<bar>\<rfloor> \<le> \<bar>x\<bar>"
    and "\<bar>x\<bar> < 2 powr of_int (\<lfloor>log 2 \<bar>x\<bar>\<rfloor> + 1)" by simp_all
qed

lemma powr2_less_cancel: "2 powr of_int a < (2::real) powr of_int b \<Longrightarrow> a < b"
  by simp

lemma powr2_of_nat_int: "0 \<le> k \<Longrightarrow> (2::real) powr of_int k = of_int (2 ^ nat k)"
proof -
  assume "0 \<le> k"
  then have "(2::real) powr of_int k = 2 powr real (nat k)" by simp
  also have "\<dots> = 2 ^ nat k" by (rule powr_realpow) simp
  finally show ?thesis by simp
qed

text \<open>Every \<open>m * 2^j\<close> with \<open>|m| < 2^53\<close> and \<open>j \<ge> -1074\<close> is its own rounding.\<close>

lemma round64_representable:
  assumes m: "\<bar>m\<bar> < 2 ^ 53" and j: "- 1074 \<le> j"
  shows "round64 (of_int m * 2 powr of_int j) = of_int m * 2 powr of_int j"
proof (cases "m = 0")
  case True
  then show ?thesis by (simp add: round64_def)
next
  case False
  define x :: real where "x = of_int m * 2 powr of_int j"
  have x0: "x \<noteq> 0" using False by (simp add: x_def)
  define e0 where "e0 = \<lfloor>log 2 \<bar>x\<bar>\<rfloor>"
  define e where "e = max e0 (- 1022)"
  have "\<bar>x\<bar> = \<bar>of_int m\<bar> * 2 powr of_int j" by (simp add: x_def abs_mult)
  moreover have "\<bar>of_int m :: real\<bar> < 2 ^ 53"
    using m by (metis of_int_abs of_int_less_numeral_power_cancel_iff)
  ultimately have "\<bar>x\<bar> < 2 ^ 53 * 2 powr of_int j" by simp
  also have "\<dots> = 2 powr of_int (53 + j)"
    by (simp add: powr_add powr2_of_nat_int)
  finally have "\<bar>x\<bar> < 2 powr of_int (53 + j)" .
  then have "2 powr of_int e0 < (2::real) powr of_int (53 + j)"
    using floor_log2_bounds(1) [OF x0] unfolding e0_def by linarith
  then have "e0 < 53 + j" by (rule powr2_less_cancel)
  then have ej: "e - 52 \<le> j" using j by (simp add: e_def)
  define k where "k = j - (e - 52)"
  have k: "0 \<le> k" using ej by (simp add: k_def)
  have u: "ulp_of x = 2 powr of_int (e - 52)"
    by (simp add: ulp_of_def e_def e0_def)
  have "2 powr of_int j = 2 powr of_int k * (2::real) powr of_int (e - 52)"
    by (simp add: k_def powr_add [symmetric])
  then have xk: "x = of_int m * 2 powr of_int k * 2 powr of_int (e - 52)"
    by (simp add: x_def)
  have "x / ulp_of x = x / 2 powr of_int (e - 52)"
    by (simp only: u)
  also have "\<dots> = of_int m * 2 powr of_int k"
    by (subst xk) simp
  also have "\<dots> = of_int (m * 2 ^ nat k)"
    by (simp add: powr2_of_nat_int [OF k])
  finally have q: "x / ulp_of x = of_int (m * 2 ^ nat k)" .
  have "round64 x = of_int (round_half_even (x / ulp_of x)) * ulp_of x"
    using x0 by (simp add: round64_def)
  also have "\<dots> = (x / ulp_of x) * ulp_of x"
    unfolding q round_half_even_of_int ..
  also have "\<dots> = x" using ulp_of_pos [of x] by simp
  finally show ?thesis by (simp add: x_def)
qed

lemma round64_int: "\<bar>m\<bar> < 2 ^ 53 \<Longrightarrow> round64 (of_int m) = of_int m"
  using round64_representable [of m 0] by simp


lemma round64_eval:
  assumes "2 powr of_int e \<le> \<bar>x\<bar>" and "\<bar>x\<bar> < 2 powr of_int (e + 1)" and "- 1022 \<le> e"
  shows "round64 x = of_int (round_half_even (x / 2 powr of_int (e - 52))) * 2 powr of_int (e - 52)"
proof -
  have x0: "x \<noteq> 0" using assms(1) by (auto simp: not_le [symmetric])
  have "0 < \<bar>x\<bar>" using x0 by simp
  then have "\<lfloor>log 2 \<bar>x\<bar>\<rfloor> = e"
    using floor_log_eq_powr_iff [of "\<bar>x\<bar>" 2 e] assms(1,2) by simp
  then have "ulp_of x = 2 powr of_int (e - 52)"
    using assms(3) by (simp add: ulp_of_def max_def)
  then show ?thesis using x0 by (simp add: round64_def)
qed

lemma round64_absorbed: "round64 (10 ^ 17 + 1) = 10 ^ 17"
proof -
  have "round64 (10 ^ 17 + 1) =
      of_int (round_half_even ((10 ^ 17 + 1) / 2 powr of_int (56 - 52))) * 2 powr of_int (56 - 52)"
    by (rule round64_eval) (simp_all add: powr2_of_nat_int)
  moreover have "(2::real) powr of_int (56 - 52) = 16"
    by (simp add: powr2_of_nat_int)
  moreover have "round_half_even ((10 ^ 17 + 1) / 16) = 6250000000000000"
    by (simp add: round_half_even_def Let_def)
  ultimately show ?thesis by simp
qed

lemma round64_numeral [simp]:
  "\<bar>numeral n :: int\<bar> < 2 ^ 53 \<Longrightarrow> round64 (numeral n) = numeral n"
  using round64_int [of "numeral n"] by simp

lemma round64_0 [simp]: "round64 0 = 0"
  by (simp add: round64_def)

lemma round64_1 [simp]: "round64 1 = 1"
  using round64_int [of 1] by simp

lemma ulp_of_ge: "2 powr (- 1074) \<le> ulp_of x"
proof -
  have "(- 1074 :: real) \<le> of_int (max \<lfloor>log 2 \<bar>x\<bar>\<rfloor> (- 1022) - 52)" by simp
  then show ?thesis unfolding ulp_of_def by (subst powr_le_cancel_iff) simp_all
qed

lemma ulp_of_normal:
  assumes "- 1022 \<le> \<lfloor>log 2 \<bar>x\<bar>\<rfloor>"
  shows "ulp_of x = 2 powr of_int (\<lfloor>log 2 \<bar>x\<bar>\<rfloor> - 52)"
proof -
  have "max \<lfloor>log 2 \<bar>x\<bar>\<rfloor> (- 1022) = \<lfloor>log 2 \<bar>x\<bar>\<rfloor>" using assms by (rule max_absorb1)
  then show ?thesis unfolding ulp_of_def by (simp only:)
qed

lemma ulp_of_subnormal:
  assumes "\<lfloor>log 2 \<bar>x\<bar>\<rfloor> < - 1022"
  shows "ulp_of x = 2 powr (- 1074)"
proof -
  have "max \<lfloor>log 2 \<bar>x\<bar>\<rfloor> (- 1022) = - 1022" using assms by (intro max_absorb2) simp
  then have "ulp_of x = 2 powr of_int (- 1022 - 52)" unfolding ulp_of_def by (simp only:)
  then show ?thesis by simp
qed

lemma round64_pos:
  assumes "2 powr (- 1075) < x"
  shows "0 < round64 x"
proof -
  have x0: "0 < x" using assms by (smt (verit) powr_gt_zero)
  define e0 where "e0 = \<lfloor>log 2 \<bar>x\<bar>\<rfloor>"
  have half: "1 / 2 < x / ulp_of x"
  proof (cases "- 1022 \<le> e0")
    case True
    then have u: "ulp_of x = 2 powr of_int (e0 - 52)"
      unfolding e0_def by (rule ulp_of_normal)
    have "2 powr of_int e0 \<le> x"
      using floor_log2_bounds(1) [of x] x0 by (simp add: e0_def)
    then have "2 powr of_int e0 / 2 powr of_int (e0 - 52) \<le> x / ulp_of x"
      unfolding u by (simp add: divide_right_mono)
    moreover have "2 powr of_int e0 / 2 powr of_int (e0 - 52) = (2::real) powr 52"
      by (simp add: powr_diff [symmetric])
    moreover have "(1 / 2 :: real) < 2 powr 52" by (simp add: powr_numeral)
    ultimately show ?thesis by linarith
  next
    case False
    then have u: "ulp_of x = 2 powr (- 1074)"
      unfolding e0_def by (intro ulp_of_subnormal) simp
    have "2 powr (- 1075) / 2 powr (- 1074) < x / ulp_of x"
      unfolding u using assms by (simp add: divide_strict_right_mono)
    moreover have "2 powr (- 1075) / 2 powr (- 1074) = (1 / 2 :: real)"
      by (simp add: powr_diff [symmetric] powr_minus)
    ultimately show ?thesis by simp
  qed
  then have "1 \<le> round_half_even (x / ulp_of x)" by (rule round_half_even_pos)
  then have "0 < of_int (round_half_even (x / ulp_of x)) * ulp_of x"
    using ulp_of_pos [of x] by simp
  then show ?thesis using x0 by (simp add: round64_def)
qed

lemma double_pos_ge:
  assumes "0 < x" and "round64 x = x"
  shows "2 powr (- 1074) \<le> x"
proof -
  have x: "x = of_int (round_half_even (x / ulp_of x)) * ulp_of x"
    using assms by (simp add: round64_def split: if_splits)
  have "0 < of_int (round_half_even (x / ulp_of x)) * ulp_of x"
    using assms(1) x by simp
  then have "0 < round_half_even (x / ulp_of x)"
    using ulp_of_pos [of x] by (simp add: zero_less_mult_iff)
  then have "(1::real) \<le> of_int (round_half_even (x / ulp_of x))" by linarith
  then have "ulp_of x \<le> of_int (round_half_even (x / ulp_of x)) * ulp_of x"
    using ulp_of_pos [of x] by simp
  then show ?thesis using ulp_of_ge [of x] x by linarith
qed


lemma binary64_pos:
  assumes "0 < round64 x"
  shows "binary64 x = PInf \<or> (\<exists>r>0. binary64 x = Fin r)"
  using assms by (auto simp: binary64_def Let_def)


lemma binary64_fin: "round64 x = x \<Longrightarrow> \<bar>x\<bar> < 2 ^ 1024 \<Longrightarrow> binary64 x = Fin x"
  by (auto simp: binary64_def Let_def)

lemma round64_neg_numeral [simp]:
  "\<bar>numeral n :: int\<bar> < 2 ^ 53 \<Longrightarrow> round64 (- numeral n) = - numeral n"
  using round64_int [of "- numeral n"] by simp

subsection \<open>MarketStructures\<close>








lemma round64_le_pow2:
  assumes "0 < x" and "x \<le> 2 powr of_int n" and "- 1074 \<le> n"
  shows "round64 x \<le> 2 powr of_int n"
proof -
  define e0 where "e0 = \<lfloor>log 2 \<bar>x\<bar>\<rfloor>"
  define e where "e = max e0 (- 1022)"
  have x0: "x \<noteq> 0" using assms(1) by simp
  have "2 powr of_int e0 \<le> \<bar>x\<bar>" unfolding e0_def by (rule floor_log2_bounds(1) [OF x0])
  then have "2 powr of_int e0 \<le> (2::real) powr of_int n" using assms(1,2) by linarith
  then have "e0 \<le> n" by simp
  then have en: "e - 52 \<le> n" using assms(3) by (simp add: e_def)
  define k where "k = n - (e - 52)"
  have k: "0 \<le> k" using en by (simp add: k_def)
  have u: "ulp_of x = 2 powr of_int (e - 52)" by (simp add: ulp_of_def e_def e0_def)
  have nk: "2 powr of_int n = of_int (2 ^ nat k) * ulp_of x"
  proof -
    have "2 powr of_int n = 2 powr of_int k * (2::real) powr of_int (e - 52)"
      by (simp add: k_def powr_add [symmetric])
    then show ?thesis by (simp only: u powr2_of_nat_int [OF k])
  qed
  have "x \<le> of_int (2 ^ nat k) * ulp_of x" using assms(2) unfolding nk .
  then have "x / ulp_of x \<le> of_int (2 ^ nat k)"
    using ulp_of_pos [of x] by (simp only: pos_divide_le_eq)
  then have "round_half_even (x / ulp_of x) \<le> 2 ^ nat k" by (rule round_half_even_le)
  then have "(of_int (round_half_even (x / ulp_of x)) :: real) \<le> of_int (2 ^ nat k)"
    by (simp only: of_int_le_iff)
  then have "of_int (round_half_even (x / ulp_of x)) * ulp_of x \<le> of_int (2 ^ nat k) * ulp_of x"
    using ulp_of_pos [of x] by (simp add: mult_right_mono)
  then show ?thesis using x0 unfolding nk by (simp add: round64_def)
qed

lemma round64_unit_interval:
  assumes "0 \<le> x" and "x \<le> 1"
  shows "0 \<le> round64 x \<and> round64 x \<le> 1"
proof (cases "x = 0")
  case True
  then show ?thesis by simp
next
  case False
  then have "0 < x" using assms(1) by simp
  moreover have "x \<le> 2 powr of_int 0" using assms(2) by simp
  ultimately have "round64 x \<le> 2 powr of_int 0" by (rule round64_le_pow2) simp
  then show ?thesis using round64_nonneg [OF assms(1)] by simp
qed

lemma round64_3_4:
  assumes "3 \<le> x" and "x \<le> 4"
  shows "3 \<le> round64 x \<and> round64 x \<le> 4"
proof (cases "x = 4")
  case True
  then show ?thesis by simp
next
  case False
  then have x4: "x < 4" using assms(2) by simp
  have p: "(2::real) powr of_int (1 - 52) = 1 / 2 ^ 51"
    by (simp add: powr_minus powr2_of_nat_int field_simps)
  have r: "round64 x = of_int (round_half_even (x / 2 powr of_int (1 - 52))) * 2 powr of_int (1 - 52)"
    using assms(1) x4 by (intro round64_eval) (simp_all add: powr2_of_nat_int)
  have "of_int (3 * 2 ^ 51) \<le> x * 2 ^ 51" using assms(1) by simp
  then have lo: "3 * 2 ^ 51 \<le> round_half_even (x * 2 ^ 51)" by (rule round_half_even_ge)
  have "x * 2 ^ 51 \<le> of_int (4 * 2 ^ 51)" using assms(2) by simp
  then have hi: "round_half_even (x * 2 ^ 51) \<le> 4 * 2 ^ 51" by (rule round_half_even_le)
  have "(of_int (3 * 2 ^ 51) :: real) \<le> of_int (round_half_even (x * 2 ^ 51))"
    using lo by (simp only: of_int_le_iff)
  moreover have "(of_int (round_half_even (x * 2 ^ 51)) :: real) \<le> of_int (4 * 2 ^ 51)"
    using hi by (simp only: of_int_le_iff)
  ultimately show ?thesis unfolding r p by (simp add: field_simps)
qed


lemma round64_frac:
  assumes "of_int \<lfloor>x * 1024\<rfloor> = x * 1024" and "\<bar>x * 1024\<bar> < 2 ^ 53"
  shows "round64 x = x"
proof -
  have "\<bar>real_of_int \<lfloor>x * 1024\<rfloor>\<bar> < 2 ^ 53" unfolding assms(1) by (rule assms(2))
  then have m: "\<bar>\<lfloor>x * 1024\<rfloor>\<bar> < 2 ^ 53"
    by (metis of_int_abs of_int_less_numeral_power_cancel_iff)
  have p: "(2::real) powr of_int (- 10) = 1 / 1024"
    by (simp add: powr_minus powr2_of_nat_int field_simps)
  have "of_int \<lfloor>x * 1024\<rfloor> * 2 powr of_int (- 10) = x * 1024 * (1 / 1024)"
    by (simp only: assms(1) p)
  also have "\<dots> = x" by simp
  finally have e: "of_int \<lfloor>x * 1024\<rfloor> * 2 powr of_int (- 10) = x" .
  have "round64 (of_int \<lfloor>x * 1024\<rfloor> * 2 powr of_int (- 10))
          = of_int \<lfloor>x * 1024\<rfloor> * 2 powr of_int (- 10)"
    by (rule round64_representable [OF m]) simp
  then show ?thesis by (simp only: e)
qed

lemma fpow2_error: "fpow2 x = Inl e \<Longrightarrow> e = OverflowError"
  by (cases x) (auto split: pyfloat.splits)

lemma fdiv_defined:
  assumes "d = PInf \<or> (\<exists>r>0. d = Fin r)"
  shows "\<exists>q. fdiv n d = Inr q"
  using assms by (cases n) auto

subsection \<open>PriceCompetition\<close>

text \<open>
  C5, as stated: every \<open>gamma\<close> outside \<open>[0,1]\<close> is rejected. It is not: for
  \<open>gamma = 1.5\<close> (with \<open>a = 7\<close>, \<open>b = 1\<close> and zero marginal costs) the function returns a
  result, computed by the same formulas: the prices are 8 and the quantities 11.
\<close>

theorem bertrand_accepts_gamma_out_of_range:
  "map_sum id (\<lambda>r. (price1 r, price2 r, quantity1 r, differentiation r))
     (bertrand_competition (Fin 0) (Fin 0) (Fin 7) (Fin 1) (Fin 1.5))
     = Inr (Fin 8, Fin 8, Fin 11, Fin 1.5)"
  by (simp add: bertrand_competition_def fsub_def binary64_fin round64_frac Let_def)

text \<open>
  C5, amended: \<open>bertrand_competition\<close> does not check \<open>gamma\<close>; a value outside \<open>[0,1]\<close>
  is computed on like any other. For every \<open>gamma\<close> in \<open>[0,1]\<close> and every double \<open>b > 0\<close>
  the square of \<open>gamma\<close> is computed without error, the denominator \<open>4 - gamma ** 2\<close> lies
  between 3 and 4 and the divisor \<open>b * denominator\<close> is not zero, so no
  ZeroDivisionError is raised and no guard is needed: the function returns a result, or
  raises OverflowError from the squares of the quantities.
\<close>

theorem bertrand_gamma_domain:
  assumes "0 \<le> gamma" and "gamma \<le> 1" and "b > 0" and "round64 b = b"
  shows "\<exists>s d. fpow2 (Fin gamma) = Inr (Fin s) \<and> fsub (Fin 4) (Fin s) = Fin d
           \<and> 3 \<le> d \<and> d \<le> 4 \<and> fmul (Fin b) (Fin d) \<noteq> Fin 0
           \<and> (bertrand_competition mc1 mc2 a (Fin b) (Fin gamma) = Inl OverflowError
              \<or> (\<exists>r. bertrand_competition mc1 mc2 a (Fin b) (Fin gamma) = Inr r))"
proof -
  define s where "s = round64 (gamma * gamma)"
  have "0 \<le> gamma * gamma" "gamma * gamma \<le> 1"
    using assms(1,2) by (simp_all add: mult_le_one)
  then have s: "0 \<le> s" "s \<le> 1" unfolding s_def using round64_unit_interval by blast+
  then have bs: "binary64 (gamma * gamma) = Fin s"
    by (simp add: binary64_def Let_def s_def [symmetric])
  then have g2: "fpow2 (Fin gamma) = Inr (Fin s)" by simp
  define d where "d = round64 (4 - s)"
  have d: "3 \<le> d" "d \<le> 4" unfolding d_def using s round64_3_4 [of "4 - s"] by simp_all
  then have "binary64 (4 - s) = Fin d"
    by (simp add: binary64_def Let_def d_def [symmetric])
  then have den: "fsub (Fin 4) (Fin s) = Fin d" by (simp add: fsub_def)
  have "2 powr (- 1074) \<le> b" using assms(3,4) by (rule double_pos_ge)
  moreover have "(2::real) powr (- 1075) < 2 powr (- 1074)" by simp
  moreover have "b \<le> b * d" using assms(3) d(1) by simp
  ultimately have "2 powr (- 1075) < b * d" by linarith
  then have "0 < round64 (b * d)" by (rule round64_pos)
  then have dv: "fmul (Fin b) (Fin d) = PInf \<or> (\<exists>r>0. fmul (Fin b) (Fin d) = Fin r)"
    using binary64_pos [of "b * d"] by simp
  then have nz: "fmul (Fin b) (Fin d) \<noteq> Fin 0" by auto
  obtain p1 where p1: "fdiv (fadd (fadd (fmul (Fin 2) a) (fmul (fmul (Fin 2) (Fin b)) mc1))
                            (fmul (fmul (Fin gamma) (Fin b)) mc2))
                      (fmul (Fin b) (Fin d)) = Inr p1"
    using fdiv_defined [OF dv] by blast
  obtain p2 where p2: "fdiv (fadd (fadd (fmul (Fin 2) a) (fmul (fmul (Fin 2) (Fin b)) mc2))
                            (fmul (fmul (Fin gamma) (Fin b)) mc1))
                      (fmul (Fin b) (Fin d)) = Inr p2"
    using fdiv_defined [OF dv] by blast
  define q1 where "q1 = fadd (fsub a (fmul (Fin b) p1)) (fmul (fmul (Fin gamma) (Fin b)) p2)"
  define q2 where "q2 = fadd (fsub a (fmul (Fin b) p2)) (fmul (fmul (Fin gamma) (Fin b)) p1)"
  have unf: "bertrand_competition mc1 mc2 a (Fin b) (Fin gamma) =
      bind_err (fpow2 q1) (\<lambda>s1.
      bind_err (fpow2 q2) (\<lambda>s2.
        Inr \<lparr>price1 = p1, price2 = p2, quantity1 = q1, quantity2 = q2,
             profit1 = fmul (fsub p1 mc1) q1, profit2 = fmul (fsub p2 mc2) q2,
             total_quantity = fadd q1 q2,
             bertrand_consumer_surplus =
               fadd (fmul (fmul (Fin 0.5) (Fin b)) (fadd s1 s2))
                    (fmul (fmul (fmul (Fin gamma) (Fin b)) q1) q2),
             differentiation = Fin gamma, competition_type = ''Bertrand''\<rparr>))"
    unfolding bertrand_competition_def g2 bind_err_simps Let_def den p1 p2
      q1_def [symmetric] q2_def [symmetric] ..
  have "bertrand_competition mc1 mc2 a (Fin b) (Fin gamma) = Inl OverflowError
          \<or> (\<exists>r. bertrand_competition mc1 mc2 a (Fin b) (Fin gamma) = Inr r)"
  proof (cases "fpow2 q1")
    case (Inl e)
    then show ?thesis unfolding unf using fpow2_error [OF Inl] by simp
  next
    case s1: (Inr s1)
    show ?thesis
    proof (cases "fpow2 q2")
      case (Inl e)
      then show ?thesis unfolding unf s1 using fpow2_error [OF Inl] by simp
    next
      case (Inr s2)
      then show ?thesis unfolding unf s1 by simp
    qed
  qed
  then show ?thesis using g2 den d nz by blast
qed

theorem bertrand_gamma_domain_witness:
  "(0::real) \<le> 1 / 2 \<and> (1 / 2 :: real) \<le> 1 \<and> (1::real) > 0 \<and> round64 1 = 1
   \<and> fpow2 (Fin (1 / 2)) = Inr (Fin (1 / 4)) \<and> fsub (Fin 4) (Fin (1 / 4)) = Fin (15 / 4)
   \<and> (bertrand_competition (Fin 10) (Fin 10) (Fin 100) (Fin 1) (Fin (1 / 2)) = Inl OverflowError
      \<or> (\<exists>r. bertrand_competition (Fin 10) (Fin 10) (Fin 100) (Fin 1) (Fin (1 / 2)) = Inr r))"
proof -
  have a: "fpow2 (Fin (1 / 2)) = Inr (Fin (1 / 4))"
    by (simp add: binary64_fin round64_frac)
  have b: "fsub (Fin 4) (Fin (1 / 4)) = Fin (15 / 4)"
    by (simp add: fsub_def binary64_fin round64_frac)
  show ?thesis
    using bertrand_gamma_domain [of "1 / 2" 1 "Fin 10" "Fin 10" "Fin 100"] a b by auto
qed

lemma floor_log2_ge:
  assumes "2 powr of_int n \<le> \<bar>x\<bar>"
  shows "n \<le> \<lfloor>log 2 \<bar>x\<bar>\<rfloor>"
proof -
  have x0: "x \<noteq> 0" using assms by (auto simp: not_le [symmetric])
  have "2 powr of_int n < (2::real) powr of_int (\<lfloor>log 2 \<bar>x\<bar>\<rfloor> + 1)"
    using assms floor_log2_bounds(2) [OF x0] by linarith
  then have "n < \<lfloor>log 2 \<bar>x\<bar>\<rfloor> + 1" by (rule powr2_less_cancel)
  then show ?thesis by simp
qed

lemma round64_ge_pow2:
  assumes "2 powr of_int n \<le> x" and "- 1022 \<le> n"
  shows "2 powr of_int n \<le> round64 x"
proof -
  have xp: "0 < x" using assms(1) by (smt (verit) powr_gt_zero)
  then have x0: "x \<noteq> 0" by simp
  define e0 where "e0 = \<lfloor>log 2 \<bar>x\<bar>\<rfloor>"
  have ne: "n \<le> e0" unfolding e0_def using assms(1) xp by (intro floor_log2_ge) simp
  then have "- 1022 \<le> \<lfloor>log 2 \<bar>x\<bar>\<rfloor>" using assms(2) unfolding e0_def by linarith
  then have u: "ulp_of x = 2 powr of_int (e0 - 52)"
    unfolding e0_def by (rule ulp_of_normal)
  have lo: "2 powr of_int e0 \<le> x"
    using floor_log2_bounds(1) [OF x0] xp by (simp add: e0_def)
  have e: "2 powr of_int e0 = of_int (2 ^ 52) * ulp_of x"
    unfolding u by (simp add: powr_diff powr_numeral)
  have "of_int (2 ^ 52) * ulp_of x \<le> x" using lo unfolding e .
  then have "of_int (2 ^ 52) \<le> x / ulp_of x"
    using ulp_of_pos [of x] by (simp only: pos_le_divide_eq)
  then have "2 ^ 52 \<le> round_half_even (x / ulp_of x)" by (rule round_half_even_ge)
  then have "(of_int (2 ^ 52) :: real) \<le> of_int (round_half_even (x / ulp_of x))"
    by (simp only: of_int_le_iff)
  then have "of_int (2 ^ 52) * ulp_of x \<le> of_int (round_half_even (x / ulp_of x)) * ulp_of x"
    using ulp_of_pos [of x] by (simp add: mult_right_mono)
  then have "2 powr of_int e0 \<le> round64 x" using x0 unfolding e by (simp add: round64_def)
  moreover have "(2::real) powr of_int n \<le> 2 powr of_int e0" using ne by simp
  ultimately show ?thesis by linarith
qed

lemma round64_half:
  assumes "2 powr (- 1021) \<le> \<bar>x\<bar>"
  shows "round64 (x / 2) = round64 x / 2"
proof -
  have x0: "x \<noteq> 0" using assms by (smt (verit) powr_gt_zero abs_zero)
  define e0 where "e0 = \<lfloor>log 2 \<bar>x\<bar>\<rfloor>"
  have "2 powr of_int (- 1021) \<le> \<bar>x\<bar>" using assms by simp
  then have e0: "- 1021 \<le> e0" unfolding e0_def by (rule floor_log2_ge)
  have b1: "2 powr of_int e0 \<le> \<bar>x\<bar>" and b2: "\<bar>x\<bar> < 2 powr of_int (e0 + 1)"
    unfolding e0_def using floor_log2_bounds [OF x0] by simp_all
  have h: "(2::real) powr of_int (e0 - 1) = 2 powr of_int e0 / 2"
    by (simp add: powr_diff)
  have h2: "(2::real) powr of_int (e0 + 1) = 2 powr of_int e0 * 2"
    by (simp add: powr_add)
  have "2 powr of_int (e0 - 1) \<le> \<bar>x / 2\<bar> \<and> \<bar>x / 2\<bar> < 2 powr of_int (e0 - 1 + 1)"
    using b1 b2 unfolding h h2 by simp
  moreover have "0 < \<bar>x / 2\<bar>" using x0 by simp
  ultimately have fl: "\<lfloor>log 2 \<bar>x / 2\<bar>\<rfloor> = e0 - 1"
    using floor_log_eq_powr_iff [of "\<bar>x / 2\<bar>" 2 "e0 - 1"] by simp
  have "- 1022 \<le> \<lfloor>log 2 \<bar>x\<bar>\<rfloor>" using e0 unfolding e0_def by linarith
  then have u: "ulp_of x = 2 powr of_int (e0 - 52)"
    unfolding e0_def by (rule ulp_of_normal)
  have "- 1022 \<le> \<lfloor>log 2 \<bar>x / 2\<bar>\<rfloor>" using e0 unfolding fl by linarith
  then have "ulp_of (x / 2) = 2 powr of_int (\<lfloor>log 2 \<bar>x / 2\<bar>\<rfloor> - 52)"
    by (rule ulp_of_normal)
  then have "ulp_of (x / 2) = 2 powr of_int (e0 - 1 - 52)" unfolding fl .
  also have "\<dots> = 2 powr of_int (e0 - 52) / 2" by (simp add: powr_diff powr_numeral)
  finally have u2: "ulp_of (x / 2) = ulp_of x / 2" by (simp only: u)
  have "x / 2 / (ulp_of x / 2) = x / ulp_of x" by simp
  then show ?thesis using x0 by (simp add: round64_def u2)
qed


lemma round64_idem: "round64 (round64 x) = round64 x"
proof (cases "x = 0")
  case True
  then show ?thesis by simp
next
  case False
  define e where "e = max \<lfloor>log 2 \<bar>x\<bar>\<rfloor> (- 1022)"
  define N where "N = round_half_even (x / ulp_of x)"
  have u: "ulp_of x = 2 powr of_int (e - 52)" by (simp add: ulp_of_def e_def)
  have r: "round64 x = of_int N * 2 powr of_int (e - 52)"
    using False by (simp add: round64_def N_def u)
  have e: "- 1074 \<le> e - 52" by (simp add: e_def)
  have "\<lfloor>log 2 \<bar>x\<bar>\<rfloor> + 1 \<le> e + 1" by (simp add: e_def)
  then have "(2::real) powr of_int (\<lfloor>log 2 \<bar>x\<bar>\<rfloor> + 1) \<le> 2 powr of_int (e + 1)"
    by (simp only: powr_le_cancel_iff of_int_le_iff)
  then have "\<bar>x\<bar> < 2 powr of_int (e + 1)"
    using floor_log2_bounds(2) [OF False] by linarith
  also have "\<dots> = of_int (2 ^ 53) * ulp_of x"
    unfolding u by (simp add: powr_diff powr_add powr_numeral)
  finally have ax: "\<bar>x\<bar> < of_int (2 ^ 53) * ulp_of x" .
  then have "\<bar>x\<bar> / ulp_of x < of_int (2 ^ 53)"
    using ulp_of_pos [of x] by (simp only: pos_divide_less_eq)
  then have b1: "x / ulp_of x \<le> of_int (2 ^ 53)" and b2: "of_int (- (2 ^ 53)) \<le> x / ulp_of x"
    using ulp_of_pos [of x] by (simp_all add: abs_if field_simps split: if_splits)
  have N: "N \<le> 2 ^ 53" "- (2 ^ 53) \<le> N"
    unfolding N_def using round_half_even_le [OF b1] round_half_even_ge [OF b2] by simp_all
  consider "\<bar>N\<bar> < 2 ^ 53" | "N = 2 ^ 53" | "N = - (2 ^ 53)" using N by linarith
  then show ?thesis
  proof cases
    case 1
    then show ?thesis unfolding r using e by (rule round64_representable)
  next
    case 2
    have "of_int N * 2 powr of_int (e - 52) = of_int (2 ^ 52) * (2::real) powr of_int (e - 51)"
      unfolding 2 by (simp add: powr_diff powr_numeral)
    moreover have "round64 (of_int (2 ^ 52) * 2 powr of_int (e - 51))
        = of_int (2 ^ 52) * 2 powr of_int (e - 51)"
      using e by (intro round64_representable) simp_all
    ultimately show ?thesis unfolding r by (simp only:)
  next
    case 3
    have "of_int N * 2 powr of_int (e - 52) = of_int (- (2 ^ 52)) * (2::real) powr of_int (e - 51)"
      unfolding 3 by (simp add: powr_diff powr_numeral)
    moreover have "round64 (of_int (- (2 ^ 52)) * 2 powr of_int (e - 51))
        = of_int (- (2 ^ 52)) * 2 powr of_int (e - 51)"
      using e by (intro round64_representable) simp_all
    ultimately show ?thesis unfolding r by (simp only:)
  qed
qed

text \<open>A value between two powers of two in the normal range rounds to a finite double there.\<close>

lemma round64_range:
  assumes "2 powr of_int m \<le> x" and "x \<le> 2 powr of_int n" and "- 1022 \<le> m" and "n < 1024"
  shows "2 powr of_int m \<le> round64 x" and "round64 x \<le> 2 powr of_int n"
    and "binary64 x = Fin (round64 x)"
proof -
  have xp: "0 < x" using assms(1) by (smt (verit) powr_gt_zero)
  show lo: "2 powr of_int m \<le> round64 x" using assms(1,3) by (rule round64_ge_pow2)
  have mn: "m \<le> n"
  proof -
    have "2 powr of_int m \<le> (2::real) powr of_int n" using assms(1,2) by linarith
    then show ?thesis by simp
  qed
  show hi: "round64 x \<le> 2 powr of_int n"
    using xp assms(2) by (rule round64_le_pow2) (use mn assms(3) in linarith)
  have "(2::real) powr of_int n < 2 powr 1024" using assms(4) by (intro powr_less_mono) simp_all
  also have "(2::real) powr 1024 = 2 ^ 1024" by (simp add: powr_numeral)
  finally have "round64 x < 2 ^ 1024" using hi by linarith
  moreover have "0 < round64 x" using lo by (smt (verit) powr_gt_zero)
  ultimately show "binary64 x = Fin (round64 x)" by (simp add: binary64_def Let_def)
qed

lemma range_div:
  fixes x y :: real
  assumes "2 powr of_int m1 \<le> x" and "x \<le> 2 powr of_int n1"
    and "2 powr of_int m2 \<le> y" and "y \<le> 2 powr of_int n2"
  shows "2 powr of_int (m1 - n2) \<le> x / y" and "x / y \<le> 2 powr of_int (n1 - m2)"
proof -
  have yp: "0 < y" using assms(3) by (smt (verit) powr_gt_zero)
  have xp: "0 < x" using assms(1) by (smt (verit) powr_gt_zero)
  have "2 powr of_int m1 / 2 powr of_int n2 \<le> x / y"
    using assms xp yp by (intro frac_le) simp_all
  then show "2 powr of_int (m1 - n2) \<le> x / y" by (simp add: powr_diff)
  have "x / y \<le> 2 powr of_int n1 / 2 powr of_int m2"
    using assms xp yp by (intro frac_le) simp_all
  then show "x / y \<le> 2 powr of_int (n1 - m2)" by (simp add: powr_diff)
qed

lemma range_mul:
  fixes x y :: real
  assumes "2 powr of_int m1 \<le> x" and "x \<le> 2 powr of_int n1"
    and "2 powr of_int m2 \<le> y" and "y \<le> 2 powr of_int n2"
  shows "2 powr of_int (m1 + m2) \<le> x * y" and "x * y \<le> 2 powr of_int (n1 + n2)"
proof -
  have yp: "0 < y" using assms(3) by (smt (verit) powr_gt_zero)
  have xp: "0 < x" using assms(1) by (smt (verit) powr_gt_zero)
  have "2 powr of_int m1 * 2 powr of_int m2 \<le> x * y"
    using assms xp yp by (intro mult_mono) simp_all
  then show "2 powr of_int (m1 + m2) \<le> x * y" by (simp add: powr_add)
  have "x * y \<le> 2 powr of_int n1 * 2 powr of_int n2"
    using assms xp yp by (intro mult_mono) simp_all
  then show "x * y \<le> 2 powr of_int (n1 + n2)" by (simp add: powr_add)
qed

lemma pow2_as_powr: "(2::real) ^ k = 2 powr of_int (int k)"
  by (simp add: powr_realpow)

lemma inv_pow2_as_powr: "1 / (2::real) ^ k = 2 powr of_int (- int k)"
  by (simp add: powr_minus powr_realpow field_simps)

lemma binary64_finite: "\<bar>round64 x\<bar> < 2 ^ 1024 \<Longrightarrow> binary64 x = Fin (round64 x)"
  by (auto simp: binary64_def Let_def)

lemma binary64_range:
  assumes "2 powr of_int m \<le> x" and "x \<le> 2 powr of_int n" and "- 1022 \<le> m" and "n < 1024"
  shows "binary64 x = Fin (round64 x)"
  using assms by (rule round64_range(3))


lemma round64_pow2: "round64 (2 ^ k) = 2 ^ k"
proof -
  have "round64 (of_int 1 * 2 powr of_int (int k)) = of_int 1 * 2 powr of_int (int k)"
    by (rule round64_representable) simp_all
  then show ?thesis by (simp add: pow2_as_powr)
qed

lemma binary64_pow2: "k < 1024 \<Longrightarrow> binary64 (2 ^ k) = Fin (2 ^ k)"
proof -
  assume "k < 1024"
  then have "(2::real) ^ k < 2 ^ 1024" by (intro power_strict_increasing) simp_all
  then have "\<bar>(2::real) ^ k\<bar> < 2 ^ 1024" by simp
  then show ?thesis using round64_pow2 by (intro binary64_fin)
qed

lemma binary64_pow2_overflow: "1024 \<le> k \<Longrightarrow> binary64 (2 ^ k) = PInf"
proof -
  assume "1024 \<le> k"
  then have "(2::real) ^ 1024 \<le> 2 ^ k" by (intro power_increasing) simp_all
  then have "2 ^ 1024 \<le> round64 (2 ^ k)" by (simp only: round64_pow2)
  then show ?thesis unfolding binary64_def Let_def by (simp only: if_True)
qed

text \<open>
  C7, as stated: the relation holds for all parameters with \<open>a > mc > 0\<close> and \<open>b > 0\<close>.
  In double precision it does not: for \<open>a = 2^520\<close>, \<open>mc = 2^519\<close> and \<open>b = 1\<close> the square
  in the deadweight loss overflows and \<open>monopoly\<close> raises OverflowError instead of
  returning a result.
\<close>

theorem monopoly_overflow:
  "monopoly (Fin (2 ^ 520)) (Fin 1) (Fin (2 ^ 519)) = Inl OverflowError"
proof -
  have e1: "(2::real) ^ 520 + - (2 ^ 519) = 2 ^ 519" by simp
  have s1: "fsub (Fin (2 ^ 520)) (Fin (2 ^ 519)) = Fin (2 ^ 519)"
    unfolding fsub_def fneg.simps fadd.simps e1 by (rule binary64_pow2) simp
  have s2: "fmul (Fin 2) (Fin 1) = Fin 2" by (simp add: binary64_fin)
  have e3: "(2::real) ^ 519 / 2 = 2 ^ 518" by simp
  have "binary64 (2 ^ 519 / 2) = Fin (2 ^ 518)"
    unfolding e3 by (rule binary64_pow2) simp
  then have s3: "fdiv (Fin (2 ^ 519)) (Fin 2) = Inr (Fin (2 ^ 518))" by simp
  have e4: "(2::real) ^ 519 / 1 = 2 ^ 519" by simp
  have "binary64 (2 ^ 519 / 1) = Fin (2 ^ 519)"
    unfolding e4 by (rule binary64_pow2) simp
  then have s4: "fdiv (Fin (2 ^ 519)) (Fin 1) = Inr (Fin (2 ^ 519))" by simp
  have e5: "(2::real) ^ 519 + - (2 ^ 518) = 2 ^ 518" by simp
  have s5: "fsub (Fin (2 ^ 519)) (Fin (2 ^ 518)) = Fin (2 ^ 518)"
    unfolding fsub_def fneg.simps fadd.simps e5 by (rule binary64_pow2) simp
  have e6: "(2::real) ^ 518 * 2 ^ 518 = 2 ^ 1036" by simp
  have "binary64 (2 ^ 518 * 2 ^ 518) = PInf"
    unfolding e6 by (rule binary64_pow2_overflow) simp
  then have s6: "fpow2 (Fin (2 ^ 518)) = Inl OverflowError"
    unfolding fpow2.simps by simp
  show ?thesis
    unfolding monopoly_def s1 s2 s3 bind_err_simps Let_def s4 s5 s6 ..
qed

text \<open>
  C7, amended: for double parameters with \<open>a > mc > 0\<close> and \<open>b > 0\<close> such that \<open>a - mc\<close>
  and \<open>b\<close> lie between \<open>2^-100\<close> and \<open>2^100\<close> (so that no intermediate result
  overflows or underflows), the quantity returned by \<open>monopoly\<close> is exactly half the
  quantity returned by \<open>perfect_competition\<close>, and the deadweight loss of the monopoly
  result is a finite number greater than 0.
\<close>

theorem monopoly_half_competitive_quantity:
  assumes "a > mc" and "mc > 0" and "b > 0" and "round64 b = b"
    and "1 / 2 ^ 100 \<le> a - mc" and "a - mc \<le> 2 ^ 100"
    and "1 / 2 ^ 100 \<le> b" and "b \<le> 2 ^ 100"
  shows "\<exists>pc mo qc d. perfect_competition (Fin a) (Fin b) (Fin mc) = Inr pc
           \<and> monopoly (Fin a) (Fin b) (Fin mc) = Inr mo
           \<and> quantity pc = Fin qc \<and> quantity mo = Fin (qc / 2)
           \<and> deadweight_loss mo = Some (Fin d) \<and> 0 < d"
proof -
  have ra: "2 powr of_int (- 100) \<le> a - mc" "a - mc \<le> 2 powr of_int 100"
    using assms(5,6) inv_pow2_as_powr [of 100] pow2_as_powr [of 100] by simp_all
  have rb: "2 powr of_int (- 100) \<le> b" "b \<le> 2 powr of_int 100"
    using assms(7,8) inv_pow2_as_powr [of 100] pow2_as_powr [of 100] by simp_all
  define x1 where "x1 = round64 (a - mc)"
  have x1: "2 powr of_int (- 100) \<le> x1" "x1 \<le> 2 powr of_int 100"
    unfolding x1_def using ra by (rule round64_range(1), simp, simp) (use ra in \<open>rule round64_range(2), simp_all\<close>)
  have "binary64 (a - mc) = Fin x1"
    unfolding x1_def using ra by (rule round64_range(3)) simp_all
  then have sub: "fsub (Fin a) (Fin mc) = Fin x1" by (simp add: fsub_def)
  have "2 powr (- 1021) \<le> \<bar>2 * b\<bar>"
  proof -
    have "(2::real) powr (- 1021) \<le> 2 powr of_int (- 100)" by simp
    then show ?thesis using rb(1) by linarith
  qed
  then have "round64 (2 * b / 2) = round64 (2 * b) / 2" by (rule round64_half)
  then have tb: "round64 (2 * b) = 2 * b" using assms(4) by simp
  have "\<bar>2 * b\<bar> < 2 ^ 1024"
  proof -
    have "b \<le> 2 ^ 100" by (rule assms(8))
    moreover have "(2::real) * 2 ^ 100 < 2 ^ 1024" by simp
    ultimately show ?thesis using assms(3) by linarith
  qed
  then have "binary64 (2 * b) = Fin (2 * b)" using tb by (intro binary64_fin)
  then have two_b: "fmul (Fin 2) (Fin b) = Fin (2 * b)" by simp
  define qc where "qc = round64 (x1 / b)"
  have qr: "2 powr of_int (- 100 - 100) \<le> x1 / b" "x1 / b \<le> 2 powr of_int (100 - (- 100))"
    using range_div [OF x1 rb] by simp_all
  have qc: "2 powr of_int (- 100 - 100) \<le> qc" "qc \<le> 2 powr of_int (100 - (- 100))"
    and qcb: "binary64 (x1 / b) = Fin qc"
    unfolding qc_def using round64_range [OF qr] by simp_all
  have b0: "b \<noteq> 0" using assms(3) by simp
  have dc: "fdiv (Fin x1) (Fin b) = Inr (Fin qc)" using b0 qcb by simp
  have "2 powr (- 1021) \<le> \<bar>x1 / b\<bar>"
  proof -
    have "(2::real) powr (- 1021) \<le> 2 powr of_int (- 100 - 100)" by simp
    then show ?thesis using qr(1) by linarith
  qed
  then have "round64 (x1 / b / 2) = round64 (x1 / b) / 2" by (rule round64_half)
  moreover have "x1 / (2 * b) = x1 / b / 2" by simp
  ultimately have hm: "round64 (x1 / (2 * b)) = qc / 2" by (simp only: qc_def)
  have "\<bar>qc / 2\<bar> < 2 ^ 1024"
  proof -
    have "qc \<le> 2 powr of_int (100 - (- 100))" by (rule qc(2))
    also have "\<dots> = 2 ^ 200" using pow2_as_powr [of 200] by simp
    finally have "qc \<le> 2 ^ 200" .
    moreover have "0 \<le> qc" using qc(1) by (smt (verit) powr_gt_zero)
    moreover have "(2::real) ^ 200 < 2 ^ 1024" by simp
    ultimately show ?thesis by linarith
  qed
  note hfin = this
  have "\<bar>round64 (x1 / (2 * b))\<bar> < 2 ^ 1024" unfolding hm by (rule hfin)
  then have "binary64 (x1 / (2 * b)) = Fin (round64 (x1 / (2 * b)))" by (rule binary64_finite)
  then have "binary64 (x1 / (2 * b)) = Fin (qc / 2)" unfolding hm .
  then have dm: "fdiv (Fin x1) (Fin (2 * b)) = Inr (Fin (qc / 2))" using b0 by simp
  have "2 powr (- 1021) \<le> \<bar>qc\<bar>"
  proof -
    have "(2::real) powr (- 1021) \<le> 2 powr of_int (- 100 - 100)" by simp
    then show ?thesis using qc(1) by linarith
  qed
  then have "round64 (qc / 2) = round64 qc / 2" by (rule round64_half)
  moreover have "round64 qc = qc" unfolding qc_def by (rule round64_idem)
  ultimately have hq: "round64 (qc / 2) = qc / 2" by simp
  have "binary64 (qc / 2) = Fin (qc / 2)" using hq hfin by (intro binary64_fin)
  moreover have "qc + - (qc / 2) = qc / 2" by simp
  ultimately have diff: "fsub (Fin qc) (Fin (qc / 2)) = Fin (qc / 2)" by (simp add: fsub_def)
  have hr: "2 powr of_int (- 201) \<le> qc / 2" "qc / 2 \<le> 2 powr of_int 199"
  proof -
    have "(2::real) powr of_int (- 201) = 2 powr of_int (- 100 - 100) / 2"
      by (simp add: powr_diff [of 2 "- 200" 1, simplified])
    then show "2 powr of_int (- 201) \<le> qc / 2" using qc(1) by simp
    have "(2::real) powr of_int 199 = 2 powr of_int (100 - (- 100)) / 2"
      by (simp add: powr_diff [of 2 200 1, simplified])
    then show "qc / 2 \<le> 2 powr of_int 199" using qc(2) by simp
  qed
  define sq where "sq = round64 (qc / 2 * (qc / 2))"
  have sr: "2 powr of_int (- 201 + - 201) \<le> qc / 2 * (qc / 2)"
    "qc / 2 * (qc / 2) \<le> 2 powr of_int (199 + 199)"
    using range_mul [OF hr hr] by simp_all
  have sq: "2 powr of_int (- 201 + - 201) \<le> sq" "sq \<le> 2 powr of_int (199 + 199)"
    and sqb: "binary64 (qc / 2 * (qc / 2)) = Fin sq"
    unfolding sq_def using round64_range [OF sr] by simp_all
  have pw: "fpow2 (Fin (qc / 2)) = Inr (Fin sq)"
    unfolding fpow2.simps sqb by simp
  define hb where "hb = round64 (0.5 * b)"
  have br: "2 powr of_int (- 101) \<le> 0.5 * b" "0.5 * b \<le> 2 powr of_int 99"
  proof -
    have "(2::real) powr of_int (- 101) = 2 powr of_int (- 100) / 2"
      by (simp add: powr_diff [of 2 "- 100" 1, simplified])
    then show "2 powr of_int (- 101) \<le> 0.5 * b" using rb(1) by simp
    have "(2::real) powr of_int 99 = 2 powr of_int 100 / 2"
      by (simp add: powr_diff [of 2 100 1, simplified])
    then show "0.5 * b \<le> 2 powr of_int 99" using rb(2) by simp
  qed
  have hb: "2 powr of_int (- 101) \<le> hb" "hb \<le> 2 powr of_int 99"
    and hbb: "binary64 (0.5 * b) = Fin hb"
    unfolding hb_def using round64_range [OF br] by simp_all
  have mh: "fmul (Fin 0.5) (Fin b) = Fin hb" using hbb by simp
  define dw where "dw = round64 (hb * sq)"
  have dr: "2 powr of_int (- 101 + (- 201 + - 201)) \<le> hb * sq"
    "hb * sq \<le> 2 powr of_int (99 + (199 + 199))"
    using range_mul [OF hb sq] by simp_all
  have dw: "2 powr of_int (- 101 + (- 201 + - 201)) \<le> dw"
    and dwb: "binary64 (hb * sq) = Fin dw"
    unfolding dw_def using round64_range [OF dr] by simp_all
  have dpos: "0 < dw" using dw by (smt (verit) powr_gt_zero)
  have md: "fmul (Fin hb) (Fin sq) = Fin dw" using dwb by simp
  have pc: "perfect_competition (Fin a) (Fin b) (Fin mc) =
      Inr \<lparr>price = Fin mc, quantity = Fin qc,
           consumer_surplus = fmul (fmul (Fin 0.5) (Fin qc)) (Fin x1),
           producer_surplus = Fin 0,
           total_surplus = fadd (fmul (fmul (Fin 0.5) (Fin qc)) (Fin x1)) (Fin 0),
           deadweight_loss = None, market_type = ''Perfect Competition''\<rparr>"
    unfolding perfect_competition_def sub dc bind_err_simps Let_def ..
  have mo: "\<exists>p cs ps ts. monopoly (Fin a) (Fin b) (Fin mc) =
      Inr \<lparr>price = p, quantity = Fin (qc / 2), consumer_surplus = cs, producer_surplus = ps,
           total_surplus = ts, deadweight_loss = Some (Fin dw), market_type = ''Monopoly''\<rparr>"
    unfolding monopoly_def sub two_b dm dc bind_err_simps Let_def diff pw mh md by blast
  show ?thesis using pc mo dpos by auto
qed


theorem monopoly_half_competitive_quantity_witness:
  "(100::real) > 20 \<and> (20::real) > 0 \<and> (2::real) > 0 \<and> round64 2 = 2
   \<and> 1 / 2 ^ 100 \<le> (100::real) - 20 \<and> (100::real) - 20 \<le> 2 ^ 100
   \<and> 1 / 2 ^ 100 \<le> (2::real) \<and> (2::real) \<le> 2 ^ 100
   \<and> (\<exists>pc mo d. perfect_competition (Fin 100) (Fin 2) (Fin 20) = Inr pc
         \<and> monopoly (Fin 100) (Fin 2) (Fin 20) = Inr mo
         \<and> quantity pc = Fin 40 \<and> quantity mo = Fin 20
         \<and> deadweight_loss mo = Some (Fin d) \<and> 0 < d)"
proof -
  have h: "(100::real) > 20" "(20::real) > 0" "(2::real) > 0" "round64 2 = 2"
    "1 / 2 ^ 100 \<le> (100::real) - 20" "(100::real) - 20 \<le> 2 ^ 100"
    "1 / 2 ^ 100 \<le> (2::real)" "(2::real) \<le> 2 ^ 100"
    by simp_all
  obtain pc mo qc d where pc: "perfect_competition (Fin 100) (Fin 2) (Fin 20) = Inr pc"
    and mo: "monopoly (Fin 100) (Fin 2) (Fin 20) = Inr mo"
    and q: "quantity pc = Fin qc" "quantity mo = Fin (qc / 2)"
    and d: "deadweight_loss mo = Some (Fin d)" "0 < d"
    using monopoly_half_competitive_quantity [OF h] by blast
  have "map_sum id quantity (perfect_competition (Fin 100) (Fin 2) (Fin 20)) = Inr (Fin 40)"
    by (simp add: perfect_competition_def fsub_def binary64_fin Let_def)
  then have "qc = 40" using pc q(1) by simp
  then have "quantity pc = Fin 40" "quantity mo = Fin 20" using q by simp_all
  then show ?thesis using h pc mo d by blast
qed

subsection \<open>AuctionTheory\<close>

lemma argmax_from_max:
  "length ys = i \<Longrightarrow> best_i < i \<Longrightarrow> ys ! best_i = best \<Longrightarrow> \<forall>y\<in>set ys. y \<le> best \<Longrightarrow>
   argmax_from xs i best_i best < length (ys @ xs)
   \<and> (\<forall>y\<in>set (ys @ xs). y \<le> (ys @ xs) ! argmax_from xs i best_i best)"
proof (induction xs arbitrary: ys i best_i best)
  case Nil
  then show ?case by simp
next
  case (Cons x xs)
  show ?case
  proof (cases "x > best")
    case True
    have "argmax_from xs (Suc i) i x < length ((ys @ [x]) @ xs)
      \<and> (\<forall>y\<in>set ((ys @ [x]) @ xs). y \<le> ((ys @ [x]) @ xs) ! argmax_from xs (Suc i) i x)"
      using Cons.prems True by (intro Cons.IH) (auto simp: nth_append)
    then show ?thesis using True by simp
  next
    case False
    have "argmax_from xs (Suc i) best_i best < length ((ys @ [x]) @ xs)
      \<and> (\<forall>y\<in>set ((ys @ [x]) @ xs). y \<le> ((ys @ [x]) @ xs) ! argmax_from xs (Suc i) best_i best)"
      using Cons.prems False by (intro Cons.IH) (auto simp: nth_append)
    then show ?thesis using False by simp
  qed
qed

lemma argmax_max:
  assumes "xs \<noteq> []"
  shows "\<exists>k. argmax xs = Inr k \<and> k < length xs \<and> (\<forall>y\<in>set xs. y \<le> xs ! k)"
proof -
  obtain x rest where xs: "xs = x # rest" using assms by (cases xs) auto
  have "argmax_from rest 1 0 x < length ([x] @ rest)
      \<and> (\<forall>y\<in>set ([x] @ rest). y \<le> ([x] @ rest) ! argmax_from rest 1 0 x)"
    by (rule argmax_from_max) auto
  then show ?thesis by (simp add: xs argmax_def)
qed

lemma np_where_set: "set (np_where c xs) = {i. i < length xs \<and> c (xs ! i)}"
  by (auto simp: np_where_def)

lemma second_highest_mem: "2 \<le> length xs \<Longrightarrow> second_highest xs \<in> set xs"
proof -
  assume "2 \<le> length xs"
  then have "length (sort xs) - 2 < length (sort xs)" by simp
  then have "sort xs ! (length (sort xs) - 2) \<in> set (sort xs)" by (rule nth_mem)
  then show ?thesis by (simp add: second_highest_def)
qed

lemma second_price_no_bidder:
  assumes "\<not> (\<exists>i<length valuations. valuations ! i \<ge> reserve_price)"
  shows "second_price_sealed_bid sub valuations reserve_price =
           Inr (no_winner None (Some valuations) ''Second-Price Sealed-Bid'')"
proof -
  have "set (np_where (\<lambda>b. b \<ge> reserve_price) valuations) = {}"
    unfolding np_where_set using assms by blast
  then show ?thesis by (simp add: second_price_sealed_bid_def)
qed

lemma second_price_winner:
  assumes "\<exists>i<length valuations. valuations ! i \<ge> reserve_price"
  shows "\<exists>w p. second_price_sealed_bid sub valuations reserve_price =
           Inr \<lparr>winner = Some w, winning_bid = valuations ! w, payment = Some p, revenue = p,
                winner_surplus = sub (valuations ! w) p, efficiency = 1, final_price = None,
                bids = Some valuations, valuations_out = Some valuations,
                auction_type = ''Second-Price Sealed-Bid''\<rparr>
         \<and> w < length valuations \<and> (\<forall>j<length valuations. valuations ! j \<le> valuations ! w)
         \<and> reserve_price \<le> p \<and> p \<le> valuations ! w"
proof -
  define fb where "fb = np_where (\<lambda>b. b \<ge> reserve_price) valuations"
  define bs where "bs = map (\<lambda>i. valuations ! i) fb"
  have fb_set: "set fb = {i. i < length valuations \<and> valuations ! i \<ge> reserve_price}"
    by (simp add: fb_def np_where_set)
  obtain i0 where "i0 < length valuations" "valuations ! i0 \<ge> reserve_price"
    using assms by blast
  then have "i0 \<in> set fb" by (simp add: fb_set)
  then have ne: "fb \<noteq> []" by (cases fb) simp_all
  then have "bs \<noteq> []" by (simp add: bs_def)
  then obtain k where k: "argmax bs = Inr k" "k < length bs" "\<forall>y\<in>set bs. y \<le> bs ! k"
    using argmax_max by blast
  define w where "w = fb ! k"
  define p where "p = max (if length bs > 1 then second_highest bs else reserve_price) reserve_price"
  have kfb: "k < length fb" using k(2) by (simp add: bs_def)
  then have "w \<in> set fb" by (simp add: w_def)
  then have w: "w < length valuations" "valuations ! w \<ge> reserve_price"
    by (simp_all add: fb_set)
  have bsk: "bs ! k = valuations ! w" using kfb by (simp add: bs_def w_def)
  have top: "valuations ! j \<le> valuations ! w" if "j < length valuations" for j
  proof (cases "valuations ! j \<ge> reserve_price")
    case True
    then have "j \<in> set fb" using that by (simp add: fb_set)
    then have "valuations ! j \<in> set bs" by (simp add: bs_def)
    then show ?thesis using k(3) bsk by auto
  next
    case False
    then show ?thesis using w(2) by simp
  qed
  have "second_highest bs \<le> valuations ! w" if "length bs > 1"
  proof -
    have "second_highest bs \<in> set bs" using that by (intro second_highest_mem) simp
    then show ?thesis using k(3) bsk by auto
  qed
  then have p: "reserve_price \<le> p" "p \<le> valuations ! w"
    using w(2) by (auto simp: p_def)
  have "second_price_sealed_bid sub valuations reserve_price =
           Inr \<lparr>winner = Some w, winning_bid = valuations ! w, payment = Some p, revenue = p,
                winner_surplus = sub (valuations ! w) p, efficiency = 1, final_price = None,
                bids = Some valuations, valuations_out = Some valuations,
                auction_type = ''Second-Price Sealed-Bid''\<rparr>"
    using ne k(1)
    by (simp add: second_price_sealed_bid_def Let_def fb_def [symmetric] bs_def [symmetric]
        w_def p_def)
  then show ?thesis using w(1) top p by blast
qed


lemma upt_3: "[0..<3] = [0, Suc 0, 2]"
  by (simp add: upt_conv_Cons numeral_3_eq_3)


lemma second_price_example:
  "second_price_sealed_bid float64_sub [10, 30, 20] 5 =
     Inr \<lparr>winner = Some 1, winning_bid = 30, payment = Some 20, revenue = 20,
          winner_surplus = 10, efficiency = 1, final_price = None,
          bids = Some [10, 30, 20], valuations_out = Some [10, 30, 20],
          auction_type = ''Second-Price Sealed-Bid''\<rparr>"
  by (simp add: second_price_sealed_bid_def np_where_def upt_3 argmax_def second_highest_def
      Let_def float64_sub_def)

text \<open>
  C2, as stated: the efficiency flag is 1 for every valuation vector and every reserve
  price. It is not: when no valuation reaches the reserve price (here one bidder with
  valuation 1 under the reserve price 5) the result has no winner and efficiency 0.
\<close>

theorem second_price_no_winner_efficiency_zero:
  "map_sum id (\<lambda>r. (winner r, efficiency r)) (second_price_sealed_bid float64_sub [1 :: real] 5) = Inr (None, 0)"
  by (simp add: second_price_sealed_bid_def np_where_def no_winner_def)

text \<open>
  C2, amended: whenever at least one valuation reaches the reserve price,
  \<open>second_price_sealed_bid\<close> returns a result with efficiency flag 1 whose winner is a bidder
  of the highest valuation; when no valuation reaches the reserve price, it returns the
  no-winner result with efficiency 0.
\<close>

theorem second_price_efficient_when_sold:
  "((\<exists>i<length valuations. valuations ! i \<ge> reserve_price) \<longrightarrow>
      (\<exists>r w. second_price_sealed_bid sub valuations reserve_price = Inr r \<and> efficiency r = 1
         \<and> winner r = Some w \<and> w < length valuations
         \<and> (\<forall>j<length valuations. valuations ! j \<le> valuations ! w)))
   \<and> (\<not> (\<exists>i<length valuations. valuations ! i \<ge> reserve_price) \<longrightarrow>
      (\<exists>r. second_price_sealed_bid sub valuations reserve_price = Inr r \<and> efficiency r = 0
         \<and> winner r = None))"
proof (intro conjI impI)
  assume "\<exists>i<length valuations. valuations ! i \<ge> reserve_price"
  then obtain w p where
    r: "second_price_sealed_bid sub valuations reserve_price =
           Inr \<lparr>winner = Some w, winning_bid = valuations ! w, payment = Some p, revenue = p,
                winner_surplus = sub (valuations ! w) p, efficiency = 1, final_price = None,
                bids = Some valuations, valuations_out = Some valuations,
                auction_type = ''Second-Price Sealed-Bid''\<rparr>"
    and w: "w < length valuations" "\<forall>j<length valuations. valuations ! j \<le> valuations ! w"
    using second_price_winner by blast
  show "\<exists>r w. second_price_sealed_bid sub valuations reserve_price = Inr r \<and> efficiency r = 1
         \<and> winner r = Some w \<and> w < length valuations
         \<and> (\<forall>j<length valuations. valuations ! j \<le> valuations ! w)"
    unfolding r using w by simp
next
  assume "\<not> (\<exists>i<length valuations. valuations ! i \<ge> reserve_price)"
  then show "\<exists>r. second_price_sealed_bid sub valuations reserve_price = Inr r \<and> efficiency r = 0
         \<and> winner r = None"
    by (simp add: second_price_no_bidder no_winner_def)
qed

theorem second_price_efficient_when_sold_witness:
  "(\<exists>i<length [10, 30, 20 :: real]. [10, 30, 20 :: real] ! i \<ge> 5)
   \<and> (\<exists>r w. second_price_sealed_bid float64_sub [10, 30, 20] 5 = Inr r \<and> efficiency r = 1
         \<and> winner r = Some w \<and> [10, 30, 20 :: real] ! w = 30)
   \<and> \<not> (\<exists>i<length [1 :: real]. [1 :: real] ! i \<ge> 5)
   \<and> (\<exists>r. second_price_sealed_bid float64_sub [1] 5 = Inr r \<and> efficiency r = 0 \<and> winner r = None)"
proof -
  have h1: "\<exists>i<length [10, 30, 20 :: real]. [10, 30, 20 :: real] ! i \<ge> 5"
    by (rule exI [of _ 0]) simp
  have h2: "\<not> (\<exists>i<length [1 :: real]. [1 :: real] ! i \<ge> 5)"
    by simp
  have a: "\<exists>r w. second_price_sealed_bid float64_sub [10, 30, 20] 5 = Inr r \<and> efficiency r = 1
         \<and> winner r = Some w \<and> [10, 30, 20 :: real] ! w = 30"
    using second_price_efficient_when_sold [of "[10, 30, 20]" 5 float64_sub] h1
    by (simp add: second_price_example)
  have b: "\<exists>r. second_price_sealed_bid float64_sub [1] 5 = Inr r \<and> efficiency r = 0 \<and> winner r = None"
    using second_price_efficient_when_sold [of "[1]" 5 float64_sub] h2 by blast
  show ?thesis using h1 h2 a b by blast
qed




lemma english_loop_stop:
  "length active \<le> 1 \<Longrightarrow> english_loop add vals inc active cur = Some (active, cur)"
  by (subst english_loop.simps) simp

lemma english_loop_step:
  "length active > 1 \<Longrightarrow>
   english_loop add vals inc active cur =
     english_loop add vals inc (filter (\<lambda>i. vals ! i \<ge> add cur inc) active) (add cur inc)"
  by (subst english_loop.simps) simp

text \<open>
  When the addition does not change the price and no active bidder is below it, a round
  leaves the state as it is: with two or more active bidders the loop never ends.
\<close>

lemma english_loop_stuck:
  fixes add :: "'a::linorder \<Rightarrow> 'a \<Rightarrow> 'a"
  assumes "add cur inc = cur" and "\<forall>i\<in>set active. vals ! i \<ge> cur" and "length active > 1"
  shows "english_loop add vals inc active cur = None"
proof (rule ccontr)
  assume "english_loop add vals inc active cur \<noteq> None"
  then obtain y where y: "english_loop add vals inc active cur = Some y" by auto
  have "\<not> (add = add \<and> vals = vals \<and> inc = inc \<and> active = active \<and> cur = cur)"
  proof (rule english_loop.raw_induct
      [where P = "\<lambda>a v i ac c y. \<not> (a = add \<and> v = vals \<and> i = inc \<and> ac = active \<and> c = cur)",
        OF _ y])
    fix f :: "('a \<Rightarrow> 'a \<Rightarrow> 'a) \<Rightarrow> 'a list \<Rightarrow> 'a \<Rightarrow> nat list \<Rightarrow> 'a \<Rightarrow> (nat list \<times> 'a) option"
      and a v i ac c z
    assume ih: "\<And>a v i ac c z. f a v i ac c = Some z \<Longrightarrow>
                  \<not> (a = add \<and> v = vals \<and> i = inc \<and> ac = active \<and> c = cur)"
    assume st: "(if 1 < length ac
                 then f a v i (filter (\<lambda>j. a c i \<le> v ! j) ac) (a c i)
                 else Some (ac, c)) = Some z"
    show "\<not> (a = add \<and> v = vals \<and> i = inc \<and> ac = active \<and> c = cur)"
    proof
      assume eq: "a = add \<and> v = vals \<and> i = inc \<and> ac = active \<and> c = cur"
      have "filter (\<lambda>j. add cur inc \<le> vals ! j) active = active"
        using assms(1,2) by (simp add: filter_id_conv)
      then have "f add vals inc active cur = Some z"
        using st eq assms(1,3) by simp
      then show False using ih by blast
    qed
  qed
  then show False by simp
qed


lemma upt_2_nat: "[0..<2] = [0, Suc 0]"
  by (simp add: upt_conv_Cons)

lemma float64_add_absorbed: "float64_add (10 ^ 17) 1 = 10 ^ 17"
  unfolding float64_add_def by (rule round64_absorbed)

text \<open>
  C9. The claim is that the ascending-price loop ends for every increment greater than 0.
  On a float64 array it does not when the increment is too small to change the price:
  \<open>1e17 + 1\<close> is \<open>1e17\<close> in double precision, so with the valuations \<open>2e17\<close> and \<open>3e17\<close>,
  the reserve price \<open>1e17\<close> and the increment 1 both bidders stay active at an unchanged
  price in every round, and \<open>english_auction\<close> never returns.
\<close>

theorem english_auction_absorbed_increment_diverges:
  "english_auction float64_add float64_add float64_sub [2 * 10 ^ 17, 3 * 10 ^ 17] (10 ^ 17) 1
     = None"
proof -
  have w: "np_where (\<lambda>v. v \<ge> 10 ^ 17) [2 * 10 ^ 17, 3 * 10 ^ 17 :: real] = [0, Suc 0]"
    by (simp add: np_where_def upt_2_nat)
  have l: "english_loop float64_add [2 * 10 ^ 17, 3 * 10 ^ 17] 1 [0, Suc 0] (10 ^ 17) = None"
    by (rule english_loop_stuck [of float64_add "10 ^ 17" 1, OF float64_add_absorbed]) simp_all
  show ?thesis using w l by (simp add: english_auction_def)
qed

lemma two_members_length: "x \<in> set xs \<Longrightarrow> y \<in> set xs \<Longrightarrow> x \<noteq> y \<Longrightarrow> 1 < length xs"
  by (cases xs; cases "tl xs") auto

text \<open>
  Two distinct active bidders of the same valuation \<open>M\<close>, which no active valuation
  exceeds, leave the loop together: when some later price is above \<open>M\<close>, the loop ends with
  no active bidder, at a price above \<open>M\<close>.
\<close>

lemma english_loop_tie:
  fixes add :: "'a::linorder \<Rightarrow> 'a \<Rightarrow> 'a"
  assumes "i1 \<noteq> i2" and "vals ! i1 = M" and "vals ! i2 = M"
  shows "i1 \<in> set active \<Longrightarrow> i2 \<in> set active \<Longrightarrow> \<forall>i\<in>set active. vals ! i \<le> M \<Longrightarrow>
         M < ((\<lambda>p. add p inc) ^^ Suc k) cur \<Longrightarrow>
         \<exists>p. english_loop add vals inc active cur = Some ([], p) \<and> M < p"
proof (induction k arbitrary: active cur)
  case 0
  have len: "1 < length active"
    using "0.prems"(1,2) assms(1) by (rule two_members_length)
  have lt: "M < add cur inc" using "0.prems"(4) by simp
  have "filter (\<lambda>i. vals ! i \<ge> add cur inc) active = []"
    using "0.prems"(3) lt by (auto simp: filter_empty_conv)
  then have "english_loop add vals inc active cur = Some ([], add cur inc)"
    using len by (simp add: english_loop_step english_loop_stop)
  then show ?case using lt by simp
next
  case (Suc k)
  have len: "1 < length active"
    using Suc.prems(1,2) assms(1) by (rule two_members_length)
  show ?case
  proof (cases "M < add cur inc")
    case True
    have "filter (\<lambda>i. vals ! i \<ge> add cur inc) active = []"
      using Suc.prems(3) True by (auto simp: filter_empty_conv)
    then have "english_loop add vals inc active cur = Some ([], add cur inc)"
      using len by (simp add: english_loop_step english_loop_stop)
    then show ?thesis using True by simp
  next
    case False
    let ?new = "filter (\<lambda>i. vals ! i \<ge> add cur inc) active"
    have m1: "i1 \<in> set ?new" and m2: "i2 \<in> set ?new"
      using False Suc.prems(1,2) assms(2,3) by simp_all
    have le: "\<forall>i\<in>set ?new. vals ! i \<le> M"
      using Suc.prems(3) by simp
    have "((\<lambda>p. add p inc) ^^ Suc (Suc k)) cur = ((\<lambda>p. add p inc) ^^ Suc k) (add cur inc)"
      by (simp only: funpow_Suc_right o_apply)
    then have bd: "M < ((\<lambda>p. add p inc) ^^ Suc k) (add cur inc)"
      using Suc.prems(4) by simp
    have "\<exists>p. english_loop add vals inc ?new (add cur inc) = Some ([], p) \<and> M < p"
      using m1 m2 le bd by (rule Suc.IH)
    then show ?thesis using len by (simp add: english_loop_step)
  qed
qed

text \<open>With exact addition and a positive increment some price is above any bound.\<close>

lemma exact_price_exceeds:
  assumes "inc > (0::real)"
  shows "\<exists>k. M < ((\<lambda>p. p + inc) ^^ Suc k) cur"
proof -
  have f: "((\<lambda>p. p + inc) ^^ n) cur = cur + real n * inc" for n
    by (induction n) (simp_all add: algebra_simps)
  obtain n where "(M - cur) / inc < real n"
    using reals_Archimedean2 by blast
  then have "M < cur + real n * inc" using assms by (simp add: field_simps)
  also have "\<dots> \<le> cur + real (Suc n) * inc" using assms by (simp add: algebra_simps)
  finally have "M < ((\<lambda>p. p + inc) ^^ Suc n) cur" by (simp only: f)
  then show ?thesis by blast
qed


text \<open>
  C10, as stated: with the maximum valuation attained by two or more bidders,
  \<open>english_auction\<close> returns the no-winner result for every positive increment. On a
  float64 array whose price absorbs the increment it returns nothing: two bidders at
  \<open>2e17\<close>, the reserve price \<open>1e17\<close> and the increment 1.
\<close>

theorem english_auction_tie_absorbed_increment:
  "english_auction float64_add float64_add float64_sub [2 * 10 ^ 17, 2 * 10 ^ 17] (10 ^ 17) 1
     = None"
proof -
  have w: "np_where (\<lambda>v. v \<ge> 10 ^ 17) [2 * 10 ^ 17, 2 * 10 ^ 17 :: real] = [0, Suc 0]"
    by (simp add: np_where_def upt_2_nat)
  have l: "english_loop float64_add [2 * 10 ^ 17, 2 * 10 ^ 17] 1 [0, Suc 0] (10 ^ 17) = None"
    by (rule english_loop_stuck [of float64_add "10 ^ 17" 1, OF float64_add_absorbed]) simp_all
  show ?thesis using w l by (simp add: english_auction_def)
qed

text \<open>
  C10, amended: when the maximum valuation is at least the reserve price and two or more
  bidders attain it, \<open>english_auction\<close> returns the no-winner result (no winner, winning
  bid, revenue and surplus 0, efficiency 0), at a final price above the maximum valuation,
  whenever adding the increment to the reserve price again and again gives, after some
  number of rounds, a price above the maximum valuation. (With exact addition every
  positive increment does; what happens when no round reaches such a price is left open.)
\<close>

theorem english_auction_tie_no_winner:
  fixes add :: "'a::{linorder,zero} \<Rightarrow> 'a \<Rightarrow> 'a"
  assumes "i1 < length valuations" and "i2 < length valuations" and "i1 \<noteq> i2"
    and "valuations ! i1 = valuations ! i2"
    and "\<forall>j<length valuations. valuations ! j \<le> valuations ! i1"
    and "valuations ! i1 \<ge> reserve_price"
    and "valuations ! i1 < ((\<lambda>p. add p increment) ^^ Suc k) reserve_price"
  shows "\<exists>r p. english_auction add arr_add sub valuations reserve_price increment = Some r
           \<and> r = no_winner (Some p) None ''English Auction''
           \<and> winner r = None \<and> winning_bid r = 0 \<and> revenue r = 0 \<and> winner_surplus r = 0
           \<and> efficiency r = 0 \<and> final_price r = Some p \<and> valuations ! i1 < p"
proof -
  define active where "active = np_where (\<lambda>v. v \<ge> reserve_price) valuations"
  have set_active: "set active = {i. i < length valuations \<and> valuations ! i \<ge> reserve_price}"
    by (simp add: active_def np_where_set)
  have m1: "i1 \<in> set active" and m2: "i2 \<in> set active"
    using assms(1,2,4,6) by (simp_all add: set_active)
  have le: "\<forall>i\<in>set active. valuations ! i \<le> valuations ! i1"
    using assms(5) by (simp add: set_active)
  obtain p where
    l: "english_loop add valuations increment active reserve_price = Some ([], p)"
    and p: "valuations ! i1 < p"
    using english_loop_tie [where M = "valuations ! i1" and vals = valuations
        and ?i1.0 = i1 and ?i2.0 = i2 and active = active and add = add and inc = increment
        and k = k and cur = reserve_price,
        OF assms(3) refl assms(4) [symmetric] m1 m2 le assms(7)]
    by blast
  have ne: "length active \<noteq> 0" using m1 by (cases active) simp_all
  have "english_auction add arr_add sub valuations reserve_price increment =
          Some (no_winner (Some p) None ''English Auction'')"
    using ne l by (simp add: english_auction_def Let_def active_def [symmetric])
  then show ?thesis using p by (simp add: no_winner_def)
qed

theorem english_auction_tie_no_winner_witness:
  "(0::nat) < length [2, 1, 2 :: real] \<and> (2::nat) < length [2, 1, 2 :: real]
   \<and> (0::nat) \<noteq> 2 \<and> [2, 1, 2 :: real] ! 0 = [2, 1, 2] ! 2
   \<and> [2, 1, 2 :: real] ! 0 \<le> [2, 1, 2] ! 0 \<and> [2, 1, 2 :: real] ! 1 \<le> [2, 1, 2] ! 0
   \<and> [2, 1, 2 :: real] ! 2 \<le> [2, 1, 2] ! 0 \<and> [2, 1, 2 :: real] ! 0 \<ge> 0
   \<and> [2, 1, 2 :: real] ! 0 < ((\<lambda>p. float64_add p 1) ^^ Suc 2) 0
   \<and> (\<exists>r. english_auction float64_add float64_add float64_sub [2, 1, 2] 0 1 = Some r
         \<and> winner r = None \<and> revenue r = 0 \<and> efficiency r = 0 \<and> final_price r = Some 3)"
proof -
  have h: "\<forall>j<length [2, 1, 2 :: real]. [2, 1, 2 :: real] ! j \<le> [2, 1, 2] ! 0"
    by (simp add: less_Suc_eq nth_Cons')
  have f: "((\<lambda>p. float64_add p 1) ^^ Suc 2) 0 = 3"
    by (simp add: float64_add_def numeral_2_eq_2)
  obtain r p where r: "english_auction float64_add float64_add float64_sub [2, 1, 2] 0 1 = Some r"
    and n: "r = no_winner (Some p) None ''English Auction''"
    using english_auction_tie_no_winner [where ?i1.0 = 0 and ?i2.0 = 2
        and valuations = "[2, 1, 2]" and reserve_price = 0 and add = float64_add
        and increment = 1 and k = 2 and arr_add = float64_add and sub = float64_sub] h f
    by auto
  have e: "english_auction float64_add float64_add float64_sub [2, 1, 2] 0 1
             = Some (no_winner (Some 3) None ''English Auction'')"
    by (simp add: english_auction_def np_where_def upt_3 english_loop.simps Let_def
        float64_add_def)
  have "r = no_winner (Some 3) None ''English Auction''" using r e by simp
  then have "winner r = None \<and> revenue r = 0 \<and> efficiency r = 0 \<and> final_price r = Some 3"
    by (simp add: no_winner_def)
  then show ?thesis using r f by simp
qed

subsection \<open>NetworkEffects\<close>





















end
